theory Spec2Isabelle
  imports Main "HOL-Library.Finite_Map" "HOL-Library.Word"
begin

section \<open>Configuration constants\<close>

text \<open>
  The seat service, the second part of \<^verbatim>\<open>src/backend/src/seat/seat.controller.ts\<close>;
  line numbers are those of that file. The constants are at lines 167-171.
\<close>

definition ZONES :: int where "ZONES = 50"
definition ROWS_PER_ZONE :: int where "ROWS_PER_ZONE = 20"
definition SEATS_PER_ROW :: int where "SEATS_PER_ROW = 65"
definition EVENT_ID :: int where "EVENT_ID = 1"

text \<open>The service's field \<^verbatim>\<open>seatsPerRow\<close> is initialised from \<^verbatim>\<open>SEATS_PER_ROW\<close>.\<close>

definition seatsPerRow :: int where "seatsPerRow = SEATS_PER_ROW"

section \<open>The key of a row\<close>

text \<open>
  The template literal \<^verbatim>\<open>`seats:${EVENT_ID}:${zone}:${row}`\<close> prints each integer in
  decimal, with a leading minus sign for a negative one.
\<close>

definition digit_char :: "nat \<Rightarrow> char" where
  "digit_char n = ''0123456789'' ! n"

fun dec_nat :: "nat \<Rightarrow> string" where
  "dec_nat n = (if n < 10 then [digit_char n] else dec_nat (n div 10) @ [digit_char (n mod 10)])"

declare dec_nat.simps [simp del]

definition dec_int :: "int \<Rightarrow> string" where
  "dec_int i = (if i < 0 then CHR ''-'' # dec_nat (nat (- i)) else dec_nat (nat i))"

definition seatKey :: "int \<Rightarrow> int \<Rightarrow> string" where
  "seatKey zone row = ''seats:'' @ dec_int EVENT_ID @ '':'' @ dec_int zone @ '':'' @ dec_int row"

text \<open>The pattern \<^verbatim>\<open>`seats:${EVENT_ID}:*`\<close> matches the keys that start with its fixed part.\<close>

definition seatKeyPattern :: "string \<Rightarrow> bool" where
  "seatKeyPattern k = (take (length (''seats:'' @ dec_int EVENT_ID @ '':'')) k
                        = ''seats:'' @ dec_int EVENT_ID @ '':'')"

section \<open>The Redis commands the service uses\<close>

text \<open>
  A Redis string value is a sequence of bytes. The bitmap commands number its bits from
  offset 0 upwards, most significant bit of each byte first: the bit at offset \<open>off\<close> is
  bit \<open>7 - off mod 8\<close> of the byte at index \<open>off div 8\<close>. A missing key reads as the empty
  string, and bits past the end of the value read as 0.
\<close>

type_synonym byte = "8 word"
type_synonym bitmap = "byte list"
type_synonym database = "(string, bitmap) fmap"

datatype error =
    Invalid_zone_or_row   \<comment> \<open>\<^verbatim>\<open>new Error('Invalid zone or row')\<close>, the spec's OutOfRange\<close>
  | Invalid_seat_range    \<comment> \<open>\<^verbatim>\<open>new Error('Invalid seat range')\<close>, the spec's InvalidRange\<close>
  | Redis_error           \<comment> \<open>an error reply of the store, which rejects the client's promise\<close>

definition value_at :: "database \<Rightarrow> string \<Rightarrow> bitmap" where
  "value_at d key = (case fmlookup d key of None \<Rightarrow> [] | Some v \<Rightarrow> v)"

text \<open>\<^verbatim>\<open>STRLEN key\<close>: the length of the value in bytes.\<close>

definition STRLEN :: "database \<Rightarrow> string \<Rightarrow> int" where
  "STRLEN d key = int (length (value_at d key))"

text \<open>\<^verbatim>\<open>GETBIT key offset\<close>.\<close>

definition GETBIT :: "database \<Rightarrow> string \<Rightarrow> nat \<Rightarrow> bool" where
  "GETBIT d key off =
     (off div 8 < length (value_at d key) \<and> bit (value_at d key ! (off div 8)) (7 - off mod 8))"

text \<open>
  \<^verbatim>\<open>SETBIT key offset value\<close>: the value is first grown with zero bytes until it holds
  the byte of the offset, then the bit is written.
\<close>

definition grow :: "bitmap \<Rightarrow> nat \<Rightarrow> bitmap" where
  "grow v off = v @ replicate (off div 8 + 1 - length v) 0"

definition write_bit :: "byte \<Rightarrow> nat \<Rightarrow> bool \<Rightarrow> byte" where
  "write_bit w n b = (if b then set_bit n w else unset_bit n w)"

definition SETBIT :: "database \<Rightarrow> string \<Rightarrow> nat \<Rightarrow> bool \<Rightarrow> database" where
  "SETBIT d key off b =
     (let v = grow (value_at d key) off
      in fmupd key (v[off div 8 := write_bit (v ! (off div 8)) (7 - off mod 8) b]) d)"

text \<open>\<^verbatim>\<open>BITCOUNT key\<close>: the number of bits that are 1.\<close>

definition popcount :: "byte \<Rightarrow> nat" where
  "popcount w = length (filter (bit w) [0..<8])"

definition BITCOUNT :: "database \<Rightarrow> string \<Rightarrow> int" where
  "BITCOUNT d key = int (sum_list (map popcount (value_at d key)))"

text \<open>
  \<^verbatim>\<open>BITFIELD key GET u<n> offset\<close>: the unsigned integer whose binary digits are the
  \<open>n\<close> bits from the offset on, the first one the most significant. Redis accepts
  unsigned widths from 1 to 63 only and answers any other width with an error reply
  (\<^verbatim>\<open>u64\<close> is not supported).
\<close>

definition bits_value :: "bool list \<Rightarrow> nat" where
  "bits_value bs = foldl (\<lambda>acc b. 2 * acc + (if b then 1 else 0)) 0 bs"

definition BITFIELD_GET_U :: "database \<Rightarrow> string \<Rightarrow> int \<Rightarrow> nat \<Rightarrow> error + nat" where
  "BITFIELD_GET_U d key n off =
     (if n < 1 \<or> 63 < n then Inl Redis_error
      else Inr (bits_value (map (\<lambda>j. GETBIT d key (off + j)) [0..<nat n])))"

text \<open>\<^verbatim>\<open>DEL\<close> of the keys that \<^verbatim>\<open>KEYS pattern\<close> returned.\<close>

definition DEL_matching :: "(string \<Rightarrow> bool) \<Rightarrow> database \<Rightarrow> database" where
  "DEL_matching pat d = fmfilter (\<lambda>k. \<not> pat k) d"

section \<open>The Lua scripts\<close>

text \<open>
  A Lua loop \<^verbatim>\<open>for i = a, b do ... end\<close> runs its body for \<open>i = a, a + 1, ..., b\<close> and not
  at all when \<open>b < a\<close>: the list \<open>[a..b]\<close>. A \<^verbatim>\<open>return\<close> in the body ends the recursion.
  The offsets the scripts pass to Redis are never negative: the loop variables start at 0,
  and \<^verbatim>\<open>start_pos\<close> has been checked by the caller.
\<close>

text \<open>The inner loop of both scripts: \<^verbatim>\<open>SETBIT key (base + j) 1\<close> for \<open>j = 0 .. n - 1\<close>.\<close>

definition set_bits :: "database \<Rightarrow> string \<Rightarrow> int \<Rightarrow> int \<Rightarrow> database" where
  "set_bits d key base n = fold (\<lambda>j d'. SETBIT d' key (nat (base + j)) True) [0..n - 1] d"

text \<open>\<^verbatim>\<open>reserveScript\<close> (lines 180-195): the loop over the candidate offsets.\<close>

fun reserve_scan :: "database \<Rightarrow> string \<Rightarrow> int \<Rightarrow> int list \<Rightarrow> (error + int) \<times> database" where
  "reserve_scan d key seats_needed [] = (Inr (- 1), d)"
| "reserve_scan d key seats_needed (i # rest) =
     (case BITFIELD_GET_U d key seats_needed (nat i) of
        Inl e \<Rightarrow> (Inl e, d)
      | Inr bitsVal \<Rightarrow>
          if bitsVal = 0 then (Inr i, set_bits d key i seats_needed)
          else reserve_scan d key seats_needed rest)"

definition reserveScript :: "database \<Rightarrow> string \<Rightarrow> int \<Rightarrow> int \<Rightarrow> (error + int) \<times> database" where
  "reserveScript d key seats_needed seats_per_row =
     reserve_scan d key seats_needed [0..seats_per_row - seats_needed]"

text \<open>\<^verbatim>\<open>reserveSpecificScript\<close> (lines 383-399): the checking loop, then the writing loop.\<close>

fun seat_taken :: "database \<Rightarrow> string \<Rightarrow> int \<Rightarrow> int list \<Rightarrow> bool" where
  "seat_taken d key start_pos [] = False"
| "seat_taken d key start_pos (i # rest) =
     (if GETBIT d key (nat (start_pos + i)) then True else seat_taken d key start_pos rest)"

definition reserveSpecificScript :: "database \<Rightarrow> string \<Rightarrow> int \<Rightarrow> int \<Rightarrow> int \<times> database" where
  "reserveSpecificScript d key start_pos count =
     (if seat_taken d key start_pos [0..count - 1] then (- 1, d)
      else (start_pos, set_bits d key start_pos count))"

section \<open>The seat service\<close>

text \<open>
  The state of the store as the service sees it: the database, and the commands the
  service has sent to it so far, oldest first.
\<close>

datatype command =
    Strlen string | Setbit string nat bool | Eval string | Bitcount string | Keys | Del

record redis =
  db :: database
  issued :: "command list"

definition issue :: "command \<Rightarrow> redis \<Rightarrow> redis" where
  "issue c s = s\<lparr>issued := issued s @ [c]\<rparr>"

definition invalid_coordinates :: "int \<Rightarrow> int \<Rightarrow> bool" where
  "invalid_coordinates zone row = (zone < 1 \<or> zone > ZONES \<or> row < 1 \<or> row > ROWS_PER_ZONE)"

text \<open>The rows in the order the nested loops over zone and row visit them.\<close>

definition all_rows :: "(int \<times> int) list" where
  "all_rows = concat (map (\<lambda>zone. map (\<lambda>row. (zone, row)) [1..ROWS_PER_ZONE]) [1..ZONES])"

text \<open>\<^verbatim>\<open>initializeAllSeatTables\<close> (lines 238-269): one pipelined \<^verbatim>\<open>SETBIT\<close> per row.\<close>

definition initializeAllSeatTables :: "redis \<Rightarrow> redis" where
  "initializeAllSeatTables s =
     fold (\<lambda>(zone, row) s'.
             issue (Setbit (seatKey zone row) (nat (SEATS_PER_ROW - 1)) False)
               (s'\<lparr>db := SETBIT (db s') (seatKey zone row) (nat (SEATS_PER_ROW - 1)) False\<rparr>))
          all_rows s"

text \<open>\<^verbatim>\<open>clearAllSeatData\<close> (lines 312-328).\<close>

definition clearAllSeatData :: "redis \<Rightarrow> redis" where
  "clearAllSeatData s =
     (let s1 = issue Keys s;
          seatKeys = fmdom (fmfilter seatKeyPattern (db s1))
      in if seatKeys \<noteq> {||} then issue Del (s1\<lparr>db := DEL_matching seatKeyPattern (db s1)\<rparr>)
         else s1)"

text \<open>
  Both reservation methods first make sure that the bitmap has \<^verbatim>\<open>seatsPerRow\<close> bits
  (lines 345-348 and 378-381).
\<close>

definition ensure_length :: "string \<Rightarrow> redis \<Rightarrow> redis" where
  "ensure_length seatKey' s =
     (let s1 = issue (Strlen seatKey') s;
          curLenBytes = STRLEN (db s1) seatKey'
      in if curLenBytes * 8 < seatsPerRow
         then issue (Setbit seatKey' (nat (seatsPerRow - 1)) False)
                (s1\<lparr>db := SETBIT (db s1) seatKey' (nat (seatsPerRow - 1)) False\<rparr>)
         else s1)"

text \<open>\<^verbatim>\<open>reserveContiguousSeats\<close> (lines 337-357).\<close>

definition reserveContiguousSeats :: "redis \<Rightarrow> int \<Rightarrow> int \<Rightarrow> int \<Rightarrow> (error + int) \<times> redis" where
  "reserveContiguousSeats s zone row count =
     (if invalid_coordinates zone row then (Inl Invalid_zone_or_row, s)
      else
        let key = seatKey zone row;
            s1 = ensure_length key s;
            (result, d) = reserveScript (db s1) key count seatsPerRow
        in (result, issue (Eval key) (s1\<lparr>db := d\<rparr>)))"

text \<open>\<^verbatim>\<open>reserveSpecificSeats\<close> (lines 367-407).\<close>

definition reserveSpecificSeats ::
  "redis \<Rightarrow> int \<Rightarrow> int \<Rightarrow> int \<Rightarrow> int \<Rightarrow> (error + int) \<times> redis" where
  "reserveSpecificSeats s zone row start count =
     (if invalid_coordinates zone row then (Inl Invalid_zone_or_row, s)
      else if start < 0 \<or> start + count > seatsPerRow then (Inl Invalid_seat_range, s)
      else
        let key = seatKey zone row;
            s1 = ensure_length key s;
            (result, d) = reserveSpecificScript (db s1) key start count
        in (Inr result, issue (Eval key) (s1\<lparr>db := d\<rparr>)))"

text \<open>\<^verbatim>\<open>getSeatOccupancy\<close> (lines 412-434).\<close>

record occupancy =
  occupied :: int
  total :: int
  available :: int

definition getSeatOccupancy :: "redis \<Rightarrow> int \<Rightarrow> int \<Rightarrow> (error + occupancy) \<times> redis" where
  "getSeatOccupancy s zone row =
     (if invalid_coordinates zone row then (Inl Invalid_zone_or_row, s)
      else
        let key = seatKey zone row;
            occupiedCount = BITCOUNT (db s) key
        in (Inr \<lparr>occupied = occupiedCount, total = seatsPerRow,
                 available = seatsPerRow - occupiedCount\<rparr>,
            issue (Bitcount key) s))"

text \<open>
  \<^verbatim>\<open>checkAllSeatsUnavailable\<close> (lines 439-488). The pipeline answers with one pair of
  an error (here always \<^verbatim>\<open>null\<close>, \<open>None\<close>) and a count per queued \<^verbatim>\<open>BITCOUNT\<close>.
\<close>

record availability =
  allUnavailable :: bool
  totalSeats :: int
  occupiedSeats :: int
  availableSeats :: int
  zonesChecked :: int
  rowsChecked :: int

definition pipeline_bitcounts :: "database \<Rightarrow> string list \<Rightarrow> (error option \<times> int) list" where
  "pipeline_bitcounts d keys = map (\<lambda>key. (None, BITCOUNT d key)) keys"

definition checkAllSeatsUnavailable :: "redis \<Rightarrow> availability \<times> redis" where
  "checkAllSeatsUnavailable s =
     (let totalSeats' = ZONES * ROWS_PER_ZONE * SEATS_PER_ROW;
          keys = map (\<lambda>(zone, row). seatKey zone row) all_rows;
          results = pipeline_bitcounts (db s) keys;
          totalOccupied =
            fold (\<lambda>result acc. if fst result = None then acc + snd result else acc) results 0;
          availableSeats' = totalSeats' - totalOccupied
      in (\<lparr>allUnavailable = (availableSeats' = 0), totalSeats = totalSeats',
            occupiedSeats = totalOccupied, availableSeats = availableSeats',
            zonesChecked = ZONES, rowsChecked = ZONES * ROWS_PER_ZONE\<rparr>,
          fold (\<lambda>key s'. issue (Bitcount key) s') keys s))"

section \<open>Notions the properties are stated with\<close>

text \<open>
  The window of \<open>n\<close> seats from offset \<open>i\<close> on is free: every bit in \<open>[i, i + n)\<close> is 0.
\<close>

definition window_free :: "database \<Rightarrow> string \<Rightarrow> int \<Rightarrow> int \<Rightarrow> bool" where
  "window_free d key i n = (\<forall>j\<in>{0..<n}. \<not> GETBIT d key (nat (i + j)))"

text \<open>A store that holds nothing and has received no command.\<close>

definition fresh_redis :: redis where
  "fresh_redis = \<lparr>db = fmempty, issued = []\<rparr>"

text \<open>A reservation call, its row and its requested count, and a sequence of calls.\<close>

datatype call = Contiguous int int int | Specific int int int int

fun perform :: "redis \<Rightarrow> call \<Rightarrow> (error + int) \<times> redis" where
  "perform s (Contiguous zone row count) = reserveContiguousSeats s zone row count"
| "perform s (Specific zone row start count) = reserveSpecificSeats s zone row start count"

fun call_row :: "call \<Rightarrow> int \<times> int" where
  "call_row (Contiguous zone row count) = (zone, row)"
| "call_row (Specific zone row start count) = (zone, row)"

fun call_count :: "call \<Rightarrow> int" where
  "call_count (Contiguous zone row count) = count"
| "call_count (Specific zone row start count) = count"

text \<open>A call succeeds when it returns an index, that is, not an error and not \<open>-1\<close>.\<close>

definition succeeded :: "error + int \<Rightarrow> bool" where
  "succeeded r = (case r of Inl e \<Rightarrow> False | Inr i \<Rightarrow> 0 \<le> i)"

fun run_calls :: "redis \<Rightarrow> call list \<Rightarrow> (call \<times> (error + int)) list \<times> redis" where
  "run_calls s [] = ([], s)"
| "run_calls s (c # cs) =
     (let (r, s') = perform s c; (rs, s'') = run_calls s' cs in ((c, r) # rs, s''))"

text \<open>The sum of the counts of the calls on a row that succeeded.\<close>

definition granted :: "int \<times> int \<Rightarrow> (call \<times> (error + int)) list \<Rightarrow> int" where
  "granted rw outcomes =
     sum_list (map (\<lambda>(c, r). if call_row c = rw \<and> succeeded r then call_count c else 0) outcomes)"

text \<open>The operations of the service, and the state after a sequence of them.\<close>

datatype operation =
    Reserve call | InitializeAll | ClearAll | RowOccupancy int int | AggregateOccupancy

fun state_after :: "redis \<Rightarrow> operation \<Rightarrow> redis" where
  "state_after s (Reserve c) = snd (perform s c)"
| "state_after s InitializeAll = initializeAllSeatTables s"
| "state_after s ClearAll = clearAllSeatData s"
| "state_after s (RowOccupancy zone row) = snd (getSeatOccupancy s zone row)"
| "state_after s AggregateOccupancy = snd (checkAllSeatsUnavailable s)"

definition run :: "redis \<Rightarrow> operation list \<Rightarrow> redis" where
  "run s ops = fold (\<lambda>op s'. state_after s' op) ops s"

text \<open>The value of a decimal digit, to read a printed number back.\<close>

definition digit_val :: "char \<Rightarrow> nat" where
  "digit_val c = of_char c - 48"

text \<open>The offsets at which a value has a 1.\<close>

definition bits_of :: "bitmap \<Rightarrow> nat set" where
  "bits_of v = {off. off div 8 < length v \<and> bit (v ! (off div 8)) (7 - off mod 8)}"

text \<open>The call is not a call of \<^verbatim>\<open>reserveSpecificSeats\<close> with a negative count.\<close>

fun specific_count_nonneg :: "call \<Rightarrow> bool" where
  "specific_count_nonneg (Contiguous zone row count) = True"
| "specific_count_nonneg (Specific zone row start count) = (0 \<le> count)"

text \<open>Every bit that is 1, in any value of the database, has an offset below \<open>S\<close>.\<close>

definition no_seat_beyond_row :: "database \<Rightarrow> bool" where
  "no_seat_beyond_row d = (\<forall>key off. GETBIT d key off \<longrightarrow> int off < SEATS_PER_ROW)"

section \<open>Facts about the keys\<close>

lemma digits_read_back: "list_all (\<lambda>n. digit_val (digit_char n) = n) [0..<10]"
  by code_simp

lemma digit_val_digit_char: "n < 10 \<Longrightarrow> digit_val (digit_char n) = n"
  using digits_read_back by (simp add: list_all_iff)

lemma digit_char_in: "n < 10 \<Longrightarrow> digit_char n \<in> set ''0123456789''"
  unfolding digit_char_def by (rule nth_mem) simp

lemma undec_dec_nat: "foldl (\<lambda>acc c. 10 * acc + digit_val c) 0 (dec_nat n) = n"
proof (induction n rule: dec_nat.induct)
  case (1 n)
  show ?case
  proof (cases "n < 10")
    case True
    then show ?thesis by (simp add: dec_nat.simps [of n] digit_val_digit_char)
  next
    case False
    with 1 show ?thesis
      by (simp add: dec_nat.simps [of n] digit_val_digit_char)
  qed
qed

lemma dec_nat_inj: "dec_nat n = dec_nat m \<Longrightarrow> n = m"
  by (metis undec_dec_nat)

lemma dec_nat_digits: "set (dec_nat n) \<subseteq> set ''0123456789''"
proof (induction n rule: dec_nat.induct)
  case (1 n)
  show ?case
  proof (cases "n < 10")
    case True
    then show ?thesis using digit_char_in [of n] by (simp add: dec_nat.simps [of n])
  next
    case False
    with 1 have "set (dec_nat (n div 10)) \<subseteq> set ''0123456789''" by simp
    moreover have "digit_char (n mod 10) \<in> set ''0123456789''" by (rule digit_char_in) simp
    ultimately show ?thesis using False by (simp add: dec_nat.simps [of n])
  qed
qed

lemma dec_nat_nonempty: "dec_nat n \<noteq> []"
  by (simp add: dec_nat.simps [of n])

lemma dec_int_inj: "dec_int i = dec_int j \<Longrightarrow> i = j"
proof -
  assume eq: "dec_int i = dec_int j"
  have no_minus: "hd (dec_nat n) \<noteq> CHR ''-''" for n
  proof -
    have "hd (dec_nat n) \<in> set (dec_nat n)" by (rule hd_in_set) (rule dec_nat_nonempty)
    then have "hd (dec_nat n) \<in> set ''0123456789''" using dec_nat_digits [of n] by blast
    then show ?thesis by auto
  qed
  show ?thesis
  proof (cases "i < 0")
    case True
    show ?thesis
    proof (cases "j < 0")
      case True
      with \<open>i < 0\<close> eq have "nat (- i) = nat (- j)" by (auto simp: dec_int_def dest: dec_nat_inj)
      with True \<open>i < 0\<close> show ?thesis by simp
    next
      case False
      with \<open>i < 0\<close> eq have "hd (dec_nat (nat j)) = CHR ''-''"
        by (simp add: dec_int_def) (metis list.sel(1))
      with no_minus [of "nat j"] show ?thesis by simp
    qed
  next
    case False
    show ?thesis
    proof (cases "j < 0")
      case True
      with \<open>\<not> i < 0\<close> eq have "hd (dec_nat (nat i)) = CHR ''-''"
        by (simp add: dec_int_def)
      with no_minus [of "nat i"] show ?thesis by simp
    next
      case False
      with \<open>\<not> i < 0\<close> eq have "nat i = nat j" by (auto simp: dec_int_def dest: dec_nat_inj)
      with False \<open>\<not> i < 0\<close> show ?thesis by simp
    qed
  qed
qed

lemma dec_int_no_colon: "CHR '':'' \<notin> set (dec_int i)"
  using dec_nat_digits [of "nat i"] dec_nat_digits [of "nat (- i)"]
  by (auto simp: dec_int_def)

lemma split_at_colon:
  assumes "xs @ CHR '':'' # ys = xs' @ CHR '':'' # ys'"
    and "CHR '':'' \<notin> set xs" and "CHR '':'' \<notin> set xs'"
  shows "xs = xs' \<and> ys = ys'"
proof -
  have "takeWhile (\<lambda>c. c \<noteq> CHR '':'') (xs @ CHR '':'' # ys) = xs"
    using assms(2) by (subst takeWhile_append2) auto
  moreover have "takeWhile (\<lambda>c. c \<noteq> CHR '':'') (xs' @ CHR '':'' # ys') = xs'"
    using assms(3) by (subst takeWhile_append2) auto
  ultimately have "xs = xs'" using assms(1) by simp
  with assms(1) show ?thesis by simp
qed

lemma seatKey_inj: "seatKey zone row = seatKey zone' row' \<Longrightarrow> zone = zone' \<and> row = row'"
proof -
  assume "seatKey zone row = seatKey zone' row'"
  then have "dec_int zone @ CHR '':'' # dec_int row = dec_int zone' @ CHR '':'' # dec_int row'"
    by (simp add: seatKey_def)
  then have "dec_int zone = dec_int zone' \<and> dec_int row = dec_int row'"
    by (rule split_at_colon) (rule dec_int_no_colon)+
  then show ?thesis by (auto dest: dec_int_inj)
qed

lemma seatKey_matches: "seatKeyPattern (seatKey zone row)"
  by (simp add: seatKeyPattern_def seatKey_def)

section \<open>Facts about the Redis commands\<close>

lemma length_grow: "off div 8 < length (grow v off)"
  by (simp add: grow_def)

lemma grow_nth: "i < length v \<Longrightarrow> grow v off ! i = v ! i"
  by (simp add: grow_def nth_append)

lemma grow_nth_new: "length v \<le> i \<Longrightarrow> i < length (grow v off) \<Longrightarrow> grow v off ! i = 0"
  by (simp add: grow_def nth_append)

lemma length_grow_ge: "length v \<le> length (grow v off)"
  by (simp add: grow_def)

lemma bit_grow:
  "(i < length (grow v off) \<and> bit (grow v off ! i) n) = (i < length v \<and> bit (v ! i) n)"
  using grow_nth [of i v off] grow_nth_new [of v i off] length_grow_ge [of v off]
  by (cases "i < length v") auto

lemma bit_write_bit: "n < 8 \<Longrightarrow> bit (write_bit w n b) m = (if m = n then b else bit w m)"
  by (auto simp: write_bit_def bit_set_bit_iff bit_unset_bit_iff dest: bit_imp_le_length)

lemma value_at_SETBIT:
  "value_at (SETBIT d key off b) key' =
     (if key' = key
      then (grow (value_at d key) off)
             [off div 8 := write_bit (grow (value_at d key) off ! (off div 8)) (7 - off mod 8) b]
      else value_at d key')"
  by (simp add: SETBIT_def value_at_def Let_def)

lemma same_offset: "off' div 8 = off div 8 \<Longrightarrow> 7 - off' mod 8 = 7 - off mod 8 \<Longrightarrow> off' = (off::nat)"
proof -
  assume a: "off' div 8 = off div 8" and b: "7 - off' mod 8 = 7 - off mod 8"
  have "off' mod 8 < 8" "off mod 8 < 8" by simp_all
  with b have "off' mod 8 = off mod 8" by arith
  with a show ?thesis by (metis div_mult_mod_eq)
qed

lemma GETBIT_SETBIT:
  "GETBIT (SETBIT d key off b) key' off' =
     (if key' = key \<and> off' = off then b else GETBIT d key' off')"
proof (cases "key' = key")
  case False
  then show ?thesis by (simp add: GETBIT_def value_at_SETBIT)
next
  case True
  let ?v = "grow (value_at d key) off"
  have n: "7 - off mod 8 < 8" by simp
  show ?thesis
  proof (cases "off' div 8 = off div 8")
    case same: True
    have "GETBIT (SETBIT d key off b) key' off'
          = bit (write_bit (?v ! (off div 8)) (7 - off mod 8) b) (7 - off' mod 8)"
      using True same length_grow [of off "value_at d key"]
      by (simp add: GETBIT_def value_at_SETBIT)
    also have "\<dots> = (if 7 - off' mod 8 = 7 - off mod 8 then b
                      else bit (?v ! (off div 8)) (7 - off' mod 8))"
      by (rule bit_write_bit [OF n])
    finally have step: "GETBIT (SETBIT d key off b) key' off'
          = (if 7 - off' mod 8 = 7 - off mod 8 then b else bit (?v ! (off div 8)) (7 - off' mod 8))" .
    have old: "GETBIT d key' off' = bit (?v ! (off div 8)) (7 - off' mod 8)"
      using True same bit_grow [of "off div 8" "value_at d key" off "7 - off' mod 8"]
            length_grow [of off "value_at d key"]
      by (simp add: GETBIT_def)
    show ?thesis using True step old same same_offset [of off' off] by auto
  next
    case False
    then have "off' \<noteq> off" by auto
    with False True show ?thesis
      using bit_grow [of "off' div 8" "value_at d key" off "7 - off' mod 8"]
      by (simp add: GETBIT_def value_at_SETBIT)
  qed
qed

lemma STRLEN_short: "STRLEN d key * 8 \<le> int off \<Longrightarrow> \<not> GETBIT d key off"
  by (auto simp: STRLEN_def GETBIT_def)

lemma finite_bits: "finite {off. GETBIT d key off}"
proof -
  have "{off. GETBIT d key off} \<subseteq> {..<8 * length (value_at d key)}"
    by (auto simp: GETBIT_def)
  then show ?thesis by (rule finite_subset) simp
qed

lemma popcount_card: "popcount w = card {n. n < 8 \<and> bit w n}"
proof -
  have "popcount w = card {i. i < length [0..<8::nat] \<and> bit w ([0..<8] ! i)}"
    unfolding popcount_def by (rule length_filter_conv_card)
  also have "{i. i < length [0..<8::nat] \<and> bit w ([0..<8] ! i)} = {n. n < 8 \<and> bit w n}"
    by auto
  finally show ?thesis .
qed

lemma popcount_offsets: "popcount w = card {off. off < 8 \<and> bit w (7 - off)}"
proof -
  have "bij_betw (\<lambda>off. 7 - off) {off. off < 8 \<and> bit w (7 - off)} {n. n < 8 \<and> bit w n}"
    by (rule bij_betw_byWitness [where f' = "\<lambda>n. 7 - n"]) auto
  then show ?thesis by (simp add: popcount_card bij_betw_same_card)
qed

lemma bits_of_Nil: "bits_of [] = {}"
  by (simp add: bits_of_def)

lemma bits_of_Cons:
  "bits_of (w # v) = {off. off < 8 \<and> bit w (7 - off)} \<union> (\<lambda>off. off + 8) ` bits_of v"
proof (rule set_eqI)
  fix off :: nat
  show "off \<in> bits_of (w # v) \<longleftrightarrow>
        off \<in> {off. off < 8 \<and> bit w (7 - off)} \<union> (\<lambda>off. off + 8) ` bits_of v"
  proof (cases "off < 8")
    case True
    then show ?thesis by (auto simp: bits_of_def)
  next
    case False
    then obtain k where k: "off = k + 8" by (metis add.commute le_Suc_ex not_less)
    have "(k + 8) div 8 = Suc (k div 8)" "(k + 8) mod 8 = k mod 8" by simp_all
    then show ?thesis using False k by (auto simp: bits_of_def)
  qed
qed

lemma finite_bits_of: "finite (bits_of v)"
proof -
  have "bits_of v \<subseteq> {..<8 * length v}" by (auto simp: bits_of_def)
  then show ?thesis by (rule finite_subset) simp
qed

lemma sum_popcount: "sum_list (map popcount v) = card (bits_of v)"
proof (induction v)
  case Nil
  then show ?case by (simp add: bits_of_Nil)
next
  case (Cons w v)
  have "card ({off. off < 8 \<and> bit w (7 - off)} \<union> (\<lambda>off. off + 8) ` bits_of v)
        = card {off. off < 8 \<and> bit w (7 - off)} + card ((\<lambda>off. off + 8) ` bits_of v)"
    by (rule card_Un_disjoint) (auto simp: finite_bits_of)
  moreover have "card ((\<lambda>off. off + 8) ` bits_of v) = card (bits_of v)"
    by (rule card_image) (simp add: inj_on_def)
  ultimately show ?case using Cons by (simp add: bits_of_Cons popcount_offsets)
qed

lemma BITCOUNT_card: "BITCOUNT d key = int (card {off. GETBIT d key off})"
  by (simp add: BITCOUNT_def sum_popcount bits_of_def GETBIT_def)

section \<open>Facts about the scripts\<close>

lemma GETBIT_fold_SETBIT:
  "GETBIT (fold (\<lambda>j d'. SETBIT d' key (f j) True) js d) key' off =
     (GETBIT d key' off \<or> (key' = key \<and> off \<in> f ` set js))"
  by (induction js arbitrary: d) (auto simp: GETBIT_SETBIT)

lemma GETBIT_set_bits:
  "0 \<le> base \<Longrightarrow> GETBIT (set_bits d key base n) key' off =
     (GETBIT d key' off \<or> (key' = key \<and> base \<le> int off \<and> int off < base + n))"
proof -
  assume base: "0 \<le> base"
  have "off \<in> (\<lambda>j. nat (base + j)) ` set [0..n - 1] \<longleftrightarrow> base \<le> int off \<and> int off < base + n"
  proof
    assume "off \<in> (\<lambda>j. nat (base + j)) ` set [0..n - 1]"
    then show "base \<le> int off \<and> int off < base + n" using base by auto
  next
    assume a: "base \<le> int off \<and> int off < base + n"
    then have "int off - base \<in> set [0..n - 1]" by simp
    moreover have "off = nat (base + (int off - base))" by simp
    ultimately show "off \<in> (\<lambda>j. nat (base + j)) ` set [0..n - 1]" by (rule rev_image_eqI)
  qed
  then show ?thesis unfolding set_bits_def GETBIT_fold_SETBIT by simp
qed

lemma set_bits_empty: "n \<le> 0 \<Longrightarrow> set_bits d key base n = d"
  by (simp add: set_bits_def)

lemma window_free_iff:
  "0 \<le> i \<Longrightarrow> window_free d key i n \<longleftrightarrow> (\<forall>off. i \<le> int off \<and> int off < i + n \<longrightarrow> \<not> GETBIT d key off)"
proof
  assume i: "0 \<le> i" and w: "window_free d key i n"
  show "\<forall>off. i \<le> int off \<and> int off < i + n \<longrightarrow> \<not> GETBIT d key off"
  proof (intro allI impI)
    fix off assume a: "i \<le> int off \<and> int off < i + n"
    then have "int off - i \<in> {0..<n}" by simp
    with w have "\<not> GETBIT d key (nat (i + (int off - i)))" unfolding window_free_def by blast
    then show "\<not> GETBIT d key off" by simp
  qed
next
  assume i: "0 \<le> i" and a: "\<forall>off. i \<le> int off \<and> int off < i + n \<longrightarrow> \<not> GETBIT d key off"
  show "window_free d key i n"
    unfolding window_free_def
  proof
    fix j assume "j \<in> {0..<n}"
    with i have "i \<le> int (nat (i + j)) \<and> int (nat (i + j)) < i + n" by simp
    with a show "\<not> GETBIT d key (nat (i + j))" by blast
  qed
qed

lemma bits_value_foldl:
  "foldl (\<lambda>acc b. 2 * acc + (if b then 1 else 0)) a bs = (0::nat) \<longleftrightarrow> a = 0 \<and> (\<forall>b\<in>set bs. \<not> b)"
  by (induction bs arbitrary: a) auto

lemma bits_value_zero: "bits_value bs = 0 \<longleftrightarrow> (\<forall>b\<in>set bs. \<not> b)"
  by (simp add: bits_value_def bits_value_foldl)

lemma BITFIELD_width: "BITFIELD_GET_U d key n off = Inl e \<longleftrightarrow> (n < 1 \<or> 63 < n) \<and> e = Redis_error"
  by (auto simp: BITFIELD_GET_U_def)

lemma BITFIELD_zero:
  assumes "0 \<le> i" and "BITFIELD_GET_U d key n (nat i) = Inr v"
  shows "v = 0 \<longleftrightarrow> window_free d key i n"
proof -
  from assms(2) have v: "v = bits_value (map (\<lambda>j. GETBIT d key (nat i + j)) [0..<nat n])"
    by (auto simp: BITFIELD_GET_U_def split: if_splits)
  have "(\<forall>j\<in>{0..<nat n}. \<not> GETBIT d key (nat i + j)) \<longleftrightarrow>
        (\<forall>off. i \<le> int off \<and> int off < i + n \<longrightarrow> \<not> GETBIT d key off)"
  proof
    assume a: "\<forall>j\<in>{0..<nat n}. \<not> GETBIT d key (nat i + j)"
    show "\<forall>off. i \<le> int off \<and> int off < i + n \<longrightarrow> \<not> GETBIT d key off"
    proof (intro allI impI)
      fix off assume b: "i \<le> int off \<and> int off < i + n"
      with assms(1) have "off - nat i \<in> {0..<nat n}" "off = nat i + (off - nat i)" by auto
      with a show "\<not> GETBIT d key off" by metis
    qed
  next
    assume a: "\<forall>off. i \<le> int off \<and> int off < i + n \<longrightarrow> \<not> GETBIT d key off"
    show "\<forall>j\<in>{0..<nat n}. \<not> GETBIT d key (nat i + j)"
    proof
      fix j assume "j \<in> {0..<nat n}"
      with assms(1) have "i \<le> int (nat i + j) \<and> int (nat i + j) < i + n" by auto
      with a show "\<not> GETBIT d key (nat i + j)" by blast
    qed
  qed
  then show ?thesis using assms(1) by (simp add: v bits_value_zero window_free_iff)
qed

lemma reserve_scan_find:
  assumes "1 \<le> n" and "n \<le> 63" and "\<forall>i\<in>set cands. 0 \<le> i"
  shows "reserve_scan d key n cands =
           (case find (\<lambda>i. window_free d key i n) cands of
              None \<Rightarrow> (Inr (- 1), d)
            | Some i \<Rightarrow> (Inr i, set_bits d key i n))"
  using assms(3)
proof (induction cands)
  case Nil
  then show ?case by simp
next
  case (Cons i rest)
  from assms(1,2) obtain v where v: "BITFIELD_GET_U d key n (nat i) = Inr v"
    by (auto simp: BITFIELD_GET_U_def)
  from Cons.prems have "0 \<le> i" by simp
  then have "v = 0 \<longleftrightarrow> window_free d key i n" using v by (rule BITFIELD_zero)
  with Cons v show ?case by simp
qed

lemma reserve_scan_bad_width:
  assumes "n < 1 \<or> 63 < n"
  shows "reserve_scan d key n cands = (if cands = [] then (Inr (- 1), d) else (Inl Redis_error, d))"
  using assms by (cases cands) (auto simp: BITFIELD_GET_U_def)

lemma find_upto_Some:
  "find P [a..L] = Some i \<longleftrightarrow> a \<le> i \<and> i \<le> L \<and> P i \<and> (\<forall>i'. a \<le> i' \<and> i' < i \<longrightarrow> \<not> P i')"
proof (induction a L rule: upto.induct)
  case (1 a L)
  show ?case
  proof (cases "a \<le> L")
    case False
    then show ?thesis by auto
  next
    case True
    then have rec: "[a..L] = a # [a + 1..L]" by (rule upto_rec1)
    show ?thesis
    proof (cases "P a")
      case Pa: True
      have "a \<le> i \<and> i \<le> L \<and> P i \<and> (\<forall>i'. a \<le> i' \<and> i' < i \<longrightarrow> \<not> P i') \<longleftrightarrow> i = a"
        using Pa True by (auto simp: order.order_iff_strict)
      then show ?thesis using Pa by (simp add: rec) metis
    next
      case nPa: False
      have "(a + 1 \<le> i \<and> i \<le> L \<and> P i \<and> (\<forall>i'. a + 1 \<le> i' \<and> i' < i \<longrightarrow> \<not> P i'))
            \<longleftrightarrow> (a \<le> i \<and> i \<le> L \<and> P i \<and> (\<forall>i'. a \<le> i' \<and> i' < i \<longrightarrow> \<not> P i'))"
      proof -
        have "a + 1 \<le> i' \<longleftrightarrow> a \<le> i' \<and> i' \<noteq> a" for i' by auto
        then show ?thesis using nPa by (metis (full_types))
      qed
      then show ?thesis using nPa 1 [OF True] by (simp add: rec)
    qed
  qed
qed

lemma find_upto_None: "find P [a..L] = None \<longleftrightarrow> (\<forall>i. a \<le> i \<and> i \<le> L \<longrightarrow> \<not> P i)"
  by (auto simp: find_None_iff)

section \<open>Facts about the service\<close>

lemma db_issue [simp]: "db (issue c s) = db s"
  by (simp add: issue_def)

lemma issued_issue [simp]: "issued (issue c s) = issued s @ [c]"
  by (simp add: issue_def)

lemma GETBIT_ensure_length:
  "GETBIT (db (ensure_length key s)) key' off = GETBIT (db s) key' off"
proof (cases "STRLEN (db s) key * 8 < seatsPerRow")
  case False
  then show ?thesis by (simp add: ensure_length_def Let_def)
next
  case True
  then have "STRLEN (db s) key * 8 \<le> int (nat (seatsPerRow - 1))"
    by (simp add: seatsPerRow_def SEATS_PER_ROW_def)
  then have "\<not> GETBIT (db s) key (nat (seatsPerRow - 1))" by (rule STRLEN_short)
  with True show ?thesis by (auto simp: ensure_length_def Let_def GETBIT_SETBIT)
qed

lemma window_free_ensure_length:
  "window_free (db (ensure_length key s)) key' i n = window_free (db s) key' i n"
  by (simp add: window_free_def GETBIT_ensure_length)

lemma reserveContiguousSeats_valid:
  assumes "\<not> invalid_coordinates zone row"
  shows "reserveContiguousSeats s zone row count =
     (fst (reserveScript (db (ensure_length (seatKey zone row) s)) (seatKey zone row) count seatsPerRow),
      issue (Eval (seatKey zone row))
        ((ensure_length (seatKey zone row) s)
           \<lparr>db := snd (reserveScript (db (ensure_length (seatKey zone row) s)) (seatKey zone row)
                        count seatsPerRow)\<rparr>))"
  using assms by (simp add: reserveContiguousSeats_def Let_def split: prod.splits)

lemma reserveScript_none:
  assumes "1 \<le> n" and "n \<le> 63"
    and "\<forall>i. 0 \<le> i \<and> i \<le> S - n \<longrightarrow> \<not> window_free d key i n"
  shows "reserveScript d key n S = (Inr (- 1), d)"
proof -
  have "find (\<lambda>i. window_free d key i n) [0..S - n] = None"
    using assms(3) by (simp add: find_upto_None)
  then show ?thesis
    using reserve_scan_find [OF assms(1,2), of "[0..S - n]" d key]
    by (simp add: reserveScript_def)
qed

lemma reserveScript_first:
  assumes "1 \<le> n" and "n \<le> 63"
    and "0 \<le> i" and "i \<le> S - n" and "window_free d key i n"
    and "\<forall>i'. 0 \<le> i' \<and> i' < i \<longrightarrow> \<not> window_free d key i' n"
  shows "reserveScript d key n S = (Inr i, set_bits d key i n)"
proof -
  have "find (\<lambda>i. window_free d key i n) [0..S - n] = Some i"
    using assms(3-6) by (simp add: find_upto_Some)
  then show ?thesis
    using reserve_scan_find [OF assms(1,2), of "[0..S - n]" d key]
    by (simp add: reserveScript_def)
qed

lemma reserveScript_too_many:
  assumes "S < n"
  shows "reserveScript d key n S = (Inr (- 1), d)"
  using assms by (simp add: reserveScript_def)

lemma reserveScript_bad_width:
  assumes "n < 1 \<or> 63 < n" and "n \<le> S"
  shows "reserveScript d key n S = (Inl Redis_error, d)"
proof -
  from assms(2) have "[0..S - n] \<noteq> []" by (simp add: upto_rec1)
  then show ?thesis using reserve_scan_bad_width [OF assms(1)] by (simp add: reserveScript_def)
qed

lemma reserveScript_cases:
  assumes "1 \<le> n" and "n \<le> 63"
  shows "(\<exists>i. 0 \<le> i \<and> i \<le> S - n \<and> window_free d key i n
              \<and> (\<forall>i'. 0 \<le> i' \<and> i' < i \<longrightarrow> \<not> window_free d key i' n)
              \<and> reserveScript d key n S = (Inr i, set_bits d key i n))
         \<or> ((\<forall>i. 0 \<le> i \<and> i \<le> S - n \<longrightarrow> \<not> window_free d key i n)
              \<and> reserveScript d key n S = (Inr (- 1), d))"
proof (cases "find (\<lambda>i. window_free d key i n) [0..S - n]")
  case None
  then have "\<forall>i. 0 \<le> i \<and> i \<le> S - n \<longrightarrow> \<not> window_free d key i n"
    by (simp add: find_upto_None)
  then show ?thesis using reserveScript_none [OF assms] by blast
next
  case (Some i)
  then have "0 \<le> i \<and> i \<le> S - n \<and> window_free d key i n
             \<and> (\<forall>i'. 0 \<le> i' \<and> i' < i \<longrightarrow> \<not> window_free d key i' n)"
    by (simp add: find_upto_Some)
  then show ?thesis using reserveScript_first [OF assms, of i S d key] by blast
qed

section \<open>Facts about a fresh store and the range script\<close>

lemma GETBIT_fresh [simp]: "\<not> GETBIT (db fresh_redis) key off"
  by (simp add: fresh_redis_def GETBIT_def value_at_def)

lemma window_free_fresh [simp]: "window_free (db fresh_redis) key i n"
  by (simp add: window_free_def)

lemma valid_1_1: "\<not> invalid_coordinates 1 1"
  by (simp add: invalid_coordinates_def ZONES_def ROWS_PER_ZONE_def)

lemma seat_taken_iff:
  "seat_taken d key start js \<longleftrightarrow> (\<exists>j\<in>set js. GETBIT d key (nat (start + j)))"
  by (induction js) auto

lemma seat_taken_window: "seat_taken d key start [0..n - 1] \<longleftrightarrow> \<not> window_free d key start n"
  by (auto simp: seat_taken_iff window_free_def)

lemma reserveSpecificSeats_valid:
  assumes "\<not> invalid_coordinates zone row" and "0 \<le> start" and "start + count \<le> seatsPerRow"
  shows "reserveSpecificSeats s zone row start count =
     (Inr (fst (reserveSpecificScript (db (ensure_length (seatKey zone row) s)) (seatKey zone row)
                  start count)),
      issue (Eval (seatKey zone row))
        ((ensure_length (seatKey zone row) s)
           \<lparr>db := snd (reserveSpecificScript (db (ensure_length (seatKey zone row) s))
                        (seatKey zone row) start count)\<rparr>))"
  using assms by (simp add: reserveSpecificSeats_def Let_def split: prod.splits)

lemma ensure_length_sized:
  "seatsPerRow \<le> STRLEN (db s) key * 8 \<Longrightarrow> db (ensure_length key s) = db s"
  by (simp add: ensure_length_def Let_def)

section \<open>Facts about the rows of the inventory\<close>

lemma in_all_rows: "(zone, row) \<in> set all_rows \<longleftrightarrow> \<not> invalid_coordinates zone row"
  by (auto simp: all_rows_def invalid_coordinates_def image_iff)

lemma set_all_rows: "set all_rows = {(zone, row). \<not> invalid_coordinates zone row}"
  using in_all_rows by auto

lemma sum_list_map_concat:
  "sum_list (map g (concat (map f xs))) = sum_list (map (\<lambda>x. sum_list (map g (f x)) :: int) xs)"
  by (induction xs) simp_all

lemma sum_list_all_rows:
  "sum_list (map g all_rows) = (\<Sum>zone = 1..ZONES. \<Sum>row = 1..ROWS_PER_ZONE. (g (zone, row) :: int))"
proof -
  have rows: "sum_list (map (\<lambda>row. g (zone, row)) [1..ROWS_PER_ZONE]) = (\<Sum>row = 1..ROWS_PER_ZONE. g (zone, row))"
    for zone
    using sum_set_upto_conv_sum_list_int [of "\<lambda>row. g (zone, row)" 1 ROWS_PER_ZONE] by simp
  have "sum_list (map g all_rows)
        = sum_list (map (\<lambda>zone. sum_list (map (\<lambda>row. g (zone, row)) [1..ROWS_PER_ZONE])) [1..ZONES])"
    by (simp add: all_rows_def sum_list_map_concat comp_def)
  also have "\<dots> = (\<Sum>zone = 1..ZONES. \<Sum>row = 1..ROWS_PER_ZONE. g (zone, row))"
    using sum_set_upto_conv_sum_list_int [of "\<lambda>zone. \<Sum>row = 1..ROWS_PER_ZONE. g (zone, row)" 1 ZONES]
    by (simp add: rows)
  finally show ?thesis .
qed

lemma fold_pipeline_results:
  "fold (\<lambda>result acc. if fst result = None then acc + snd result else acc)
        (pipeline_bitcounts d keys) a = a + sum_list (map (BITCOUNT d) keys)"
  by (induction keys arbitrary: a) (simp_all add: pipeline_bitcounts_def)

lemma db_fold_issue [simp]: "db (fold (\<lambda>key s'. issue (f key) s') keys s) = db s"
  by (induction keys arbitrary: s) simp_all

lemma getSeatOccupancy_valid:
  "\<not> invalid_coordinates zone row \<Longrightarrow>
     getSeatOccupancy s zone row =
       (Inr \<lparr>occupied = BITCOUNT (db s) (seatKey zone row), total = seatsPerRow,
             available = seatsPerRow - BITCOUNT (db s) (seatKey zone row)\<rparr>,
        issue (Bitcount (seatKey zone row)) s)"
  by (simp add: getSeatOccupancy_def Let_def)

lemma occupiedSeats_checkAll:
  "occupiedSeats (fst (checkAllSeatsUnavailable s))
     = (\<Sum>zone = 1..ZONES. \<Sum>row = 1..ROWS_PER_ZONE. BITCOUNT (db s) (seatKey zone row))"
proof -
  have "occupiedSeats (fst (checkAllSeatsUnavailable s))
        = sum_list (map (BITCOUNT (db s)) (map (\<lambda>(zone, row). seatKey zone row) all_rows))"
    by (simp add: checkAllSeatsUnavailable_def Let_def fold_pipeline_results)
  also have "\<dots> = sum_list (map (\<lambda>(zone, row). BITCOUNT (db s) (seatKey zone row)) all_rows)"
    by (simp add: comp_def case_prod_unfold)
  also have "\<dots> = (\<Sum>zone = 1..ZONES. \<Sum>row = 1..ROWS_PER_ZONE. BITCOUNT (db s) (seatKey zone row))"
    using sum_list_all_rows [of "\<lambda>(zone, row). BITCOUNT (db s) (seatKey zone row)"] by simp
  finally show ?thesis .
qed

lemma valid_interval:
  "zone \<in> {1..ZONES} \<Longrightarrow> row \<in> {1..ROWS_PER_ZONE} \<Longrightarrow> \<not> invalid_coordinates zone row"
  by (simp add: invalid_coordinates_def)

section \<open>What a reservation call can do\<close>

lemma succeeded_simps [simp]:
  "succeeded (Inl e) = False" "succeeded (Inr i) = (0 \<le> i)"
  by (simp_all add: succeeded_def)

text \<open>What a call of \<open>reserveContiguousSeats\<close> can do, in any state and for any arguments.\<close>

lemma reserveContiguous_outcomes:
  assumes "reserveContiguousSeats s zone row n = (res, s')"
  shows "(\<exists>i. res = Inr i \<and> 0 \<le> i \<and> i + n \<le> seatsPerRow \<and> 1 \<le> n \<and> n \<le> 63
              \<and> \<not> invalid_coordinates zone row
              \<and> window_free (db s) (seatKey zone row) i n
              \<and> (\<forall>i'. 0 \<le> i' \<and> i' < i \<longrightarrow> \<not> window_free (db s) (seatKey zone row) i' n)
              \<and> (\<forall>key off. GETBIT (db s') key off
                    = (GETBIT (db s) key off
                       \<or> (key = seatKey zone row \<and> i \<le> int off \<and> int off < i + n))))
         \<or> (\<not> succeeded res \<and> (\<forall>key off. GETBIT (db s') key off = GETBIT (db s) key off))"
proof (cases "invalid_coordinates zone row")
  case True
  with assms show ?thesis by (auto simp: reserveContiguousSeats_def)
next
  case False
  let ?key = "seatKey zone row"
  let ?s1 = "ensure_length ?key s"
  note eq = reserveContiguousSeats_valid [OF False, of s n]
  have wf: "window_free (db ?s1) ?key i n = window_free (db s) ?key i n" for i
    by (rule window_free_ensure_length)
  consider (too_many) "seatsPerRow < n" | (bad) "n \<le> seatsPerRow" "n < 1 \<or> 63 < n"
    | (ok) "1 \<le> n" "n \<le> 63"
    by linarith
  then show ?thesis
  proof cases
    case too_many
    then have "reserveScript (db ?s1) ?key n seatsPerRow = (Inr (- 1), db ?s1)"
      by (rule reserveScript_too_many)
    with assms show ?thesis by (auto simp: eq GETBIT_ensure_length)
  next
    case bad
    then have "reserveScript (db ?s1) ?key n seatsPerRow = (Inl Redis_error, db ?s1)"
      using reserveScript_bad_width [of n seatsPerRow] by simp
    with assms show ?thesis by (auto simp: eq GETBIT_ensure_length)
  next
    case ok
    from reserveScript_cases [OF ok, of seatsPerRow "db ?s1" ?key]
    show ?thesis
    proof
      assume "\<exists>i. 0 \<le> i \<and> i \<le> seatsPerRow - n \<and> window_free (db ?s1) ?key i n
              \<and> (\<forall>i'. 0 \<le> i' \<and> i' < i \<longrightarrow> \<not> window_free (db ?s1) ?key i' n)
              \<and> reserveScript (db ?s1) ?key n seatsPerRow = (Inr i, set_bits (db ?s1) ?key i n)"
      then obtain i where i: "0 \<le> i" "i \<le> seatsPerRow - n" "window_free (db s) ?key i n"
          "\<forall>i'. 0 \<le> i' \<and> i' < i \<longrightarrow> \<not> window_free (db s) ?key i' n"
          "reserveScript (db ?s1) ?key n seatsPerRow = (Inr i, set_bits (db ?s1) ?key i n)"
        unfolding wf by blast
      have bits: "GETBIT (set_bits (db ?s1) ?key i n) key off
                   = (GETBIT (db s) key off \<or> (key = ?key \<and> i \<le> int off \<and> int off < i + n))"
        for key off
        using i(1) by (simp add: GETBIT_set_bits GETBIT_ensure_length)
      from assms have "res = Inr i" "db s' = set_bits (db ?s1) ?key i n"
        by (auto simp: eq i(5))
      with i(1-4) bits ok False show ?thesis by auto
    next
      assume "(\<forall>i. 0 \<le> i \<and> i \<le> seatsPerRow - n \<longrightarrow> \<not> window_free (db ?s1) ?key i n)
              \<and> reserveScript (db ?s1) ?key n seatsPerRow = (Inr (- 1), db ?s1)"
      with assms show ?thesis by (auto simp: eq GETBIT_ensure_length)
    qed
  qed
qed

text \<open>What a call of \<open>reserveSpecificSeats\<close> can do.\<close>

lemma reserveSpecific_outcomes:
  assumes "reserveSpecificSeats s zone row start n = (res, s')"
  shows "(res = Inr start \<and> 0 \<le> start \<and> start + n \<le> seatsPerRow
              \<and> \<not> invalid_coordinates zone row
              \<and> window_free (db s) (seatKey zone row) start n
              \<and> (\<forall>key off. GETBIT (db s') key off
                    = (GETBIT (db s) key off
                       \<or> (key = seatKey zone row \<and> start \<le> int off \<and> int off < start + n))))
         \<or> (\<not> succeeded res \<and> (\<forall>key off. GETBIT (db s') key off = GETBIT (db s) key off))"
proof (cases "invalid_coordinates zone row \<or> start < 0 \<or> start + n > seatsPerRow")
  case True
  with assms have "(\<exists>e. res = Inl e) \<and> s' = s"
    by (auto simp: reserveSpecificSeats_def split: if_splits)
  then show ?thesis by auto
next
  case False
  let ?key = "seatKey zone row"
  let ?s1 = "ensure_length ?key s"
  from False have v: "\<not> invalid_coordinates zone row" and st: "0 \<le> start"
    and range: "start + n \<le> seatsPerRow" by auto
  note eq = reserveSpecificSeats_valid [OF v st range, of s]
  show ?thesis
  proof (cases "seat_taken (db ?s1) ?key start [0..n - 1]")
    case True
    then have "reserveSpecificScript (db ?s1) ?key start n = (- 1, db ?s1)"
      by (simp add: reserveSpecificScript_def)
    with assms show ?thesis by (auto simp: eq GETBIT_ensure_length)
  next
    case free: False
    then have r: "reserveSpecificScript (db ?s1) ?key start n = (start, set_bits (db ?s1) ?key start n)"
      by (simp add: reserveSpecificScript_def)
    from free have "window_free (db s) ?key start n"
      by (simp add: seat_taken_window window_free_ensure_length)
    moreover from assms have "res = Inr start" "db s' = set_bits (db ?s1) ?key start n"
      by (auto simp: eq r)
    ultimately show ?thesis
      using v st range by (simp add: GETBIT_set_bits GETBIT_ensure_length)
  qed
qed

section \<open>Counting the seats of a row\<close>

lemma BITCOUNT_same:
  "\<forall>off. GETBIT d' key off = GETBIT d key off \<Longrightarrow> BITCOUNT d' key = BITCOUNT d key"
  by (simp add: BITCOUNT_card)

lemma BITCOUNT_window:
  assumes bits: "\<forall>off. GETBIT d' key off = (GETBIT d key off \<or> (i \<le> int off \<and> int off < i + n))"
    and free: "window_free d key i n" and i: "0 \<le> i" and n: "0 \<le> n"
  shows "BITCOUNT d' key = BITCOUNT d key + n"
proof -
  have mem: "off \<in> {nat i..<nat (i + n)} \<longleftrightarrow> i \<le> int off \<and> int off < i + n" for off
    using i by auto
  have split: "{off. GETBIT d' key off} = {off. GETBIT d key off} \<union> {nat i..<nat (i + n)}"
    using bits mem by blast
  from free i have "\<forall>off. i \<le> int off \<and> int off < i + n \<longrightarrow> \<not> GETBIT d key off"
    by (simp add: window_free_iff)
  then have disj: "{off. GETBIT d key off} \<inter> {nat i..<nat (i + n)} = {}"
    using mem by blast
  have window: "card {nat i..<nat (i + n)} = nat n"
    using i n by (simp add: nat_add_distrib)
  have "card ({off. GETBIT d key off} \<union> {nat i..<nat (i + n)})
        = card {off. GETBIT d key off} + card {nat i..<nat (i + n)}"
    using finite_bits disj by (intro card_Un_disjoint) auto
  then have "card {off. GETBIT d' key off} = card {off. GETBIT d key off} + nat n"
    by (simp only: split window)
  then show ?thesis using n by (simp add: BITCOUNT_card)
qed

lemma perform_count:
  assumes "perform s c = (res, s')" and "specific_count_nonneg c"
  shows "BITCOUNT (db s') (seatKey zone row)
         = BITCOUNT (db s) (seatKey zone row)
           + (if call_row c = (zone, row) \<and> succeeded res then call_count c else 0)"
proof (cases c)
  case (Contiguous z r n)
  with assms(1) have call: "reserveContiguousSeats s z r n = (res, s')" by simp
  from reserveContiguous_outcomes [OF call] show ?thesis
  proof
    assume "\<exists>i. res = Inr i \<and> 0 \<le> i \<and> i + n \<le> seatsPerRow \<and> 1 \<le> n \<and> n \<le> 63
              \<and> \<not> invalid_coordinates z r
              \<and> window_free (db s) (seatKey z r) i n
              \<and> (\<forall>i'. 0 \<le> i' \<and> i' < i \<longrightarrow> \<not> window_free (db s) (seatKey z r) i' n)
              \<and> (\<forall>key off. GETBIT (db s') key off
                    = (GETBIT (db s) key off
                       \<or> (key = seatKey z r \<and> i \<le> int off \<and> int off < i + n)))"
    then obtain i where i: "res = Inr i" "0 \<le> i" "1 \<le> n" "window_free (db s) (seatKey z r) i n"
      and bits: "\<forall>key off. GETBIT (db s') key off
                    = (GETBIT (db s) key off
                       \<or> (key = seatKey z r \<and> i \<le> int off \<and> int off < i + n))"
      by blast
    show ?thesis
    proof (cases "(z, r) = (zone, row)")
      case True
      with bits have b1: "\<forall>off. GETBIT (db s') (seatKey zone row) off
             = (GETBIT (db s) (seatKey zone row) off \<or> (i \<le> int off \<and> int off < i + n))"
        by simp
      from True i(4) have f1: "window_free (db s) (seatKey zone row) i n" by simp
      have "BITCOUNT (db s') (seatKey zone row) = BITCOUNT (db s) (seatKey zone row) + n"
        by (rule BITCOUNT_window [OF b1 f1]) (use i(2,3) in simp_all)
      with True Contiguous i(1,2) show ?thesis by simp
    next
      case False
      then have "seatKey zone row \<noteq> seatKey z r" using seatKey_inj [of zone row z r] by auto
      with bits have "\<forall>off. GETBIT (db s') (seatKey zone row) off = GETBIT (db s) (seatKey zone row) off"
        by simp
      then have "BITCOUNT (db s') (seatKey zone row) = BITCOUNT (db s) (seatKey zone row)"
        by (rule BITCOUNT_same)
      with False Contiguous show ?thesis by auto
    qed
  next
    assume "\<not> succeeded res \<and> (\<forall>key off. GETBIT (db s') key off = GETBIT (db s) key off)"
    then show ?thesis by (simp add: BITCOUNT_same)
  qed
next
  case (Specific z r start n)
  with assms have call: "reserveSpecificSeats s z r start n = (res, s')" and n: "0 \<le> n"
    by simp_all
  from reserveSpecific_outcomes [OF call] show ?thesis
  proof
    assume a: "res = Inr start \<and> 0 \<le> start \<and> start + n \<le> seatsPerRow
              \<and> \<not> invalid_coordinates z r
              \<and> window_free (db s) (seatKey z r) start n
              \<and> (\<forall>key off. GETBIT (db s') key off
                    = (GETBIT (db s) key off
                       \<or> (key = seatKey z r \<and> start \<le> int off \<and> int off < start + n)))"
    then have bits: "\<forall>key off. GETBIT (db s') key off
                    = (GETBIT (db s) key off
                       \<or> (key = seatKey z r \<and> start \<le> int off \<and> int off < start + n))"
      by blast
    show ?thesis
    proof (cases "(z, r) = (zone, row)")
      case True
      with bits have b1: "\<forall>off. GETBIT (db s') (seatKey zone row) off
             = (GETBIT (db s) (seatKey zone row) off \<or> (start \<le> int off \<and> int off < start + n))"
        by simp
      from True a have f1: "window_free (db s) (seatKey zone row) start n" by simp
      have "BITCOUNT (db s') (seatKey zone row) = BITCOUNT (db s) (seatKey zone row) + n"
        by (rule BITCOUNT_window [OF b1 f1]) (use a n in simp_all)
      with True Specific a show ?thesis by simp
    next
      case False
      then have "seatKey zone row \<noteq> seatKey z r" using seatKey_inj [of zone row z r] by auto
      with bits have "\<forall>off. GETBIT (db s') (seatKey zone row) off = GETBIT (db s) (seatKey zone row) off"
        by simp
      then have "BITCOUNT (db s') (seatKey zone row) = BITCOUNT (db s) (seatKey zone row)"
        by (rule BITCOUNT_same)
      with False Specific show ?thesis by auto
    qed
  next
    assume "\<not> succeeded res \<and> (\<forall>key off. GETBIT (db s') key off = GETBIT (db s) key off)"
    then show ?thesis by (simp add: BITCOUNT_same)
  qed
qed

lemma run_calls_count:
  assumes "\<forall>c\<in>set calls. specific_count_nonneg c"
  shows "BITCOUNT (db (snd (run_calls s calls))) (seatKey zone row)
         = BITCOUNT (db s) (seatKey zone row) + granted (zone, row) (fst (run_calls s calls))"
  using assms
proof (induction calls arbitrary: s)
  case Nil
  then show ?case by (simp add: granted_def)
next
  case (Cons c calls)
  obtain res s' where step: "perform s c = (res, s')" by (cases "perform s c")
  obtain outs s'' where rest: "run_calls s' calls = (outs, s'')" by (cases "run_calls s' calls")
  from Cons.prems have c: "specific_count_nonneg c" and cs: "\<forall>c\<in>set calls. specific_count_nonneg c"
    by simp_all
  from Cons.IH [OF cs, of s'] rest
  have "BITCOUNT (db s'') (seatKey zone row)
        = BITCOUNT (db s') (seatKey zone row) + granted (zone, row) outs" by simp
  moreover note perform_count [OF step c, of zone row]
  ultimately show ?case by (simp add: step rest granted_def)
qed

section \<open>Initialisation, reset, and rows filled from the front\<close>

lemma GETBIT_fold_initialize:
  "GETBIT (db (fold (\<lambda>(zone, row) s'.
                  issue (Setbit (seatKey zone row) last_seat False)
                    (s'\<lparr>db := SETBIT (db s') (seatKey zone row) last_seat False\<rparr>)) rows s)) key off
   = (GETBIT (db s) key off
      \<and> \<not> (off = last_seat \<and> key \<in> (\<lambda>(zone, row). seatKey zone row) ` set rows))"
proof (induction rows arbitrary: s)
  case Nil
  then show ?case by simp
next
  case (Cons x rows)
  obtain zone row where x: "x = (zone, row)" by (cases x)
  let ?s1 = "issue (Setbit (seatKey zone row) last_seat False)
               (s\<lparr>db := SETBIT (db s) (seatKey zone row) last_seat False\<rparr>)"
  have first: "GETBIT (db ?s1) key off
               = (if key = seatKey zone row \<and> off = last_seat then False else GETBIT (db s) key off)"
    by (simp add: GETBIT_SETBIT)
  show ?case
    unfolding x fold_Cons comp_apply prod.case Cons.IH [of ?s1] first
    by auto
qed

lemma GETBIT_initializeAll:
  "GETBIT (db (initializeAllSeatTables s)) key off
   = (GETBIT (db s) key off
      \<and> \<not> (int off = SEATS_PER_ROW - 1
           \<and> (\<exists>zone row. \<not> invalid_coordinates zone row \<and> key = seatKey zone row)))"
proof -
  have "key \<in> (\<lambda>(zone, row). seatKey zone row) ` set all_rows
        \<longleftrightarrow> (\<exists>zone row. \<not> invalid_coordinates zone row \<and> key = seatKey zone row)"
    by (auto simp: set_all_rows)
  moreover have "off = nat (SEATS_PER_ROW - 1) \<longleftrightarrow> int off = SEATS_PER_ROW - 1"
    by (auto simp: SEATS_PER_ROW_def)
  ultimately show ?thesis
    unfolding initializeAllSeatTables_def GETBIT_fold_initialize by simp
qed

lemma GETBIT_clearAll:
  "GETBIT (db (clearAllSeatData s)) key off = (GETBIT (db s) key off \<and> \<not> seatKeyPattern key)"
proof (cases "fmdom (fmfilter seatKeyPattern (db s)) = {||}")
  case False
  then show ?thesis
    by (simp add: clearAllSeatData_def Let_def DEL_matching_def GETBIT_def value_at_def)
next
  case True
  have "seatKeyPattern key \<Longrightarrow> fmlookup (db s) key = None"
  proof -
    assume p: "seatKeyPattern key"
    have "key |\<notin>| fmdom (fmfilter seatKeyPattern (db s))" using True by simp
    then have "fmlookup (fmfilter seatKeyPattern (db s)) key = None" by (rule fmdom_notD)
    with p show ?thesis by simp
  qed
  then have "seatKeyPattern key \<Longrightarrow> \<not> GETBIT (db s) key off"
    by (simp add: GETBIT_def value_at_def)
  with True show ?thesis by (auto simp: clearAllSeatData_def Let_def)
qed

text \<open>A row whose occupied seats are exactly the first \<open>m\<close>.\<close>

lemma window_free_on_prefix:
  assumes "\<forall>off. GETBIT d key off \<longleftrightarrow> int off < m" and "0 \<le> i" and "1 \<le> n"
  shows "window_free d key i n \<longleftrightarrow> m \<le> i"
proof
  assume w: "window_free d key i n"
  from assms(2,3) have "i \<le> int (nat i) \<and> int (nat i) < i + n" by simp
  with w assms(2) have "\<not> GETBIT d key (nat i)" by (simp add: window_free_iff)
  with assms(1,2) show "m \<le> i" by simp
next
  assume "m \<le> i"
  with assms(1,2) show "window_free d key i n" by (simp add: window_free_iff)
qed

lemma reserve_on_prefix:
  assumes v: "\<not> invalid_coordinates zone row" and n: "1 \<le> n" "n \<le> 63"
    and m: "0 \<le> m" and pre: "\<forall>off. GETBIT (db s) (seatKey zone row) off \<longleftrightarrow> int off < m"
    and call: "reserveContiguousSeats s zone row n = (res, s')"
  shows "(m + n \<le> SEATS_PER_ROW \<longrightarrow>
            res = Inr m \<and> (\<forall>off. GETBIT (db s') (seatKey zone row) off \<longleftrightarrow> int off < m + n))
       \<and> (SEATS_PER_ROW < m + n \<longrightarrow>
            res = Inr (- 1) \<and> (\<forall>off. GETBIT (db s') (seatKey zone row) off \<longleftrightarrow> int off < m))"
proof -
  let ?key = "seatKey zone row"
  have wf: "window_free (db s) ?key i n \<longleftrightarrow> m \<le> i" if "0 \<le> i" for i
    using pre that n(1) by (rule window_free_on_prefix)
  from reserveContiguous_outcomes [OF call] show ?thesis
  proof
    assume "\<exists>i. res = Inr i \<and> 0 \<le> i \<and> i + n \<le> seatsPerRow \<and> 1 \<le> n \<and> n \<le> 63
              \<and> \<not> invalid_coordinates zone row
              \<and> window_free (db s) ?key i n
              \<and> (\<forall>i'. 0 \<le> i' \<and> i' < i \<longrightarrow> \<not> window_free (db s) ?key i' n)
              \<and> (\<forall>key off. GETBIT (db s') key off
                    = (GETBIT (db s) key off
                       \<or> (key = ?key \<and> i \<le> int off \<and> int off < i + n)))"
    then obtain i where i: "res = Inr i" "0 \<le> i" "i + n \<le> seatsPerRow"
        "window_free (db s) ?key i n"
        "\<forall>i'. 0 \<le> i' \<and> i' < i \<longrightarrow> \<not> window_free (db s) ?key i' n"
      and bits: "\<forall>key off. GETBIT (db s') key off
                    = (GETBIT (db s) key off \<or> (key = ?key \<and> i \<le> int off \<and> int off < i + n))"
      by blast
    from i(2,4) have "m \<le> i" by (simp add: wf)
    moreover have "i \<le> m"
    proof (rule ccontr)
      assume "\<not> i \<le> m"
      with m i(5) have "\<not> window_free (db s) ?key m n" by simp
      with m show False by (simp add: wf)
    qed
    ultimately have "i = m" by simp
    with i(1,3) bits pre n(1) show ?thesis by (auto simp: seatsPerRow_def)
  next
    assume a: "\<not> succeeded res \<and> (\<forall>key off. GETBIT (db s') key off = GETBIT (db s) key off)"
    have "SEATS_PER_ROW < m + n"
    proof (rule ccontr)
      assume "\<not> SEATS_PER_ROW < m + n"
      then have le: "m \<le> seatsPerRow - n" by (simp add: seatsPerRow_def)
      have "reserveScript (db (ensure_length ?key s)) ?key n seatsPerRow
            = (Inr m, set_bits (db (ensure_length ?key s)) ?key m n)"
        using n m le by (intro reserveScript_first) (simp_all add: window_free_ensure_length wf)
      with call have "res = Inr m" by (simp add: reserveContiguousSeats_valid [OF v])
      with a m show False by simp
    qed
    moreover have "res = Inr (- 1)"
    proof -
      have none: "\<forall>i. 0 \<le> i \<and> i \<le> seatsPerRow - n
                    \<longrightarrow> \<not> window_free (db (ensure_length ?key s)) ?key i n"
        using \<open>SEATS_PER_ROW < m + n\<close>
        by (auto simp: window_free_ensure_length wf seatsPerRow_def)
      have "reserveScript (db (ensure_length ?key s)) ?key n seatsPerRow
            = (Inr (- 1), db (ensure_length ?key s))"
        using n none by (rule reserveScript_none)
      with call show ?thesis by (simp add: reserveContiguousSeats_valid [OF v])
    qed
    ultimately show ?thesis using a pre by simp
  qed
qed

section \<open>Sequences of calls, and seats beyond the row\<close>

lemma run_calls_append:
  "run_calls s (xs @ ys) =
     (fst (run_calls s xs) @ fst (run_calls (snd (run_calls s xs)) ys),
      snd (run_calls (snd (run_calls s xs)) ys))"
  by (induction xs arbitrary: s) (simp_all split: prod.splits)

lemma run_repeat_on_prefix:
  assumes v: "\<not> invalid_coordinates zone row" and n: "1 \<le> n" "n \<le> 63"
    and m: "0 \<le> m" and room: "m + int k * n \<le> SEATS_PER_ROW"
    and pre: "\<forall>off. GETBIT (db s) (seatKey zone row) off \<longleftrightarrow> int off < m"
  shows "map snd (fst (run_calls s (replicate k (Contiguous zone row n))))
           = map (\<lambda>j. Inr (m + int j * n)) [0..<k]
       \<and> (\<forall>off. GETBIT (db (snd (run_calls s (replicate k (Contiguous zone row n)))))
                   (seatKey zone row) off \<longleftrightarrow> int off < m + int k * n)"
  using m room pre
proof (induction k arbitrary: s m)
  case 0
  then show ?case by simp
next
  case (Suc k)
  obtain res s' where call: "reserveContiguousSeats s zone row n = (res, s')"
    by (cases "reserveContiguousSeats s zone row n")
  from Suc.prems(2) n(1) have fits: "m + n \<le> SEATS_PER_ROW"
  proof -
    have "0 \<le> int k * n" using n(1) by simp
    with Suc.prems(2) show ?thesis by (simp add: distrib_right)
  qed
  from reserve_on_prefix [OF v n Suc.prems(1) Suc.prems(3) call] fits
  have res: "res = Inr m"
    and pre': "\<forall>off. GETBIT (db s') (seatKey zone row) off \<longleftrightarrow> int off < m + n"
    by simp_all
  have m': "0 \<le> m + n" using Suc.prems(1) n(1) by simp
  have room': "m + n + int k * n \<le> SEATS_PER_ROW"
    using Suc.prems(2) by (simp add: distrib_right)
  note IH = Suc.IH [OF m' room' pre']
  have idx: "map (\<lambda>j. Inr (m + int j * n) :: error + int) [0..<Suc k]
             = Inr m # map (\<lambda>j. Inr (m + n + int j * n)) [0..<k]"
    by (simp add: upt_conv_Cons map_Suc_upt [symmetric] distrib_right del: upt_Suc)
  obtain outs s'' where rest: "run_calls s' (replicate k (Contiguous zone row n)) = (outs, s'')"
    by (cases "run_calls s' (replicate k (Contiguous zone row n))")
  from IH rest have outs: "map snd outs = map (\<lambda>j. Inr (m + n + int j * n)) [0..<k]"
    and final: "\<forall>off. GETBIT (db s'') (seatKey zone row) off \<longleftrightarrow> int off < m + n + int k * n"
    by simp_all
  have "run_calls s (replicate (Suc k) (Contiguous zone row n))
        = ((Contiguous zone row n, res) # outs, s'')"
    by (simp add: call rest)
  then show ?case
    using outs final res by (simp add: idx distrib_right add.assoc del: upt_Suc)
qed

lemma reserveContiguous_beyond_row:
  assumes "SEATS_PER_ROW \<le> int off"
  shows "GETBIT (db (snd (reserveContiguousSeats s zone row count))) key off = GETBIT (db s) key off"
proof -
  obtain res s' where call: "reserveContiguousSeats s zone row count = (res, s')"
    by (cases "reserveContiguousSeats s zone row count")
  from reserveContiguous_outcomes [OF call] assms show ?thesis
    by (auto simp: call seatsPerRow_def)
qed

lemma reserveSpecific_beyond_row:
  assumes "SEATS_PER_ROW \<le> int off"
  shows "GETBIT (db (snd (reserveSpecificSeats s zone row start count))) key off
         = GETBIT (db s) key off"
proof -
  obtain res s' where call: "reserveSpecificSeats s zone row start count = (res, s')"
    by (cases "reserveSpecificSeats s zone row start count")
  from reserveSpecific_outcomes [OF call] assms show ?thesis
    by (auto simp: call seatsPerRow_def)
qed

lemma db_getSeatOccupancy [simp]: "db (snd (getSeatOccupancy s zone row)) = db s"
  by (simp add: getSeatOccupancy_def Let_def)

lemma db_checkAll [simp]: "db (snd (checkAllSeatsUnavailable s)) = db s"
  by (simp add: checkAllSeatsUnavailable_def Let_def)

lemma state_after_beyond_row:
  assumes "no_seat_beyond_row (db s)"
  shows "no_seat_beyond_row (db (state_after s op))"
proof (cases op)
  case (Reserve c)
  show ?thesis
  proof (cases c)
    case (Contiguous zone row count)
    with Reserve assms show ?thesis
      unfolding no_seat_beyond_row_def
      by (metis reserveContiguous_beyond_row not_le perform.simps(1) state_after.simps(1))
  next
    case (Specific zone row start count)
    with Reserve assms show ?thesis
      unfolding no_seat_beyond_row_def
      by (metis reserveSpecific_beyond_row not_le perform.simps(2) state_after.simps(1))
  qed
next
  case InitializeAll
  with assms show ?thesis by (auto simp: no_seat_beyond_row_def GETBIT_initializeAll)
next
  case ClearAll
  with assms show ?thesis by (auto simp: no_seat_beyond_row_def GETBIT_clearAll)
next
  case (RowOccupancy zone row)
  with assms show ?thesis by simp
next
  case AggregateOccupancy
  with assms show ?thesis by simp
qed

lemma run_beyond_row: "no_seat_beyond_row (db s) \<Longrightarrow> no_seat_beyond_row (db (run s ops))"
  unfolding run_def by (induction ops arbitrary: s) (simp_all add: state_after_beyond_row)

lemma fresh_beyond_row: "no_seat_beyond_row (db fresh_redis)"
  by (simp add: no_seat_beyond_row_def)

lemma BITCOUNT_bounds:
  assumes "no_seat_beyond_row d"
  shows "0 \<le> BITCOUNT d key \<and> BITCOUNT d key \<le> SEATS_PER_ROW"
proof -
  have "off < nat SEATS_PER_ROW" if "GETBIT d key off" for off
  proof -
    from assms that have "int off < SEATS_PER_ROW" unfolding no_seat_beyond_row_def by blast
    then show ?thesis by linarith
  qed
  then have "{off. GETBIT d key off} \<subseteq> {..<nat SEATS_PER_ROW}" by auto
  then have "card {off. GETBIT d key off} \<le> card {..<nat SEATS_PER_ROW}"
    by (intro card_mono) simp_all
  then show ?thesis by (simp add: BITCOUNT_card SEATS_PER_ROW_def)
qed

section \<open>Facts for the examples\<close>

lemma GETBIT_initialized_fresh [simp]: "\<not> GETBIT (db (initializeAllSeatTables fresh_redis)) key off"
  by (simp add: GETBIT_initializeAll)

lemma BITCOUNT_empty_row: "\<forall>off. \<not> GETBIT d key off \<Longrightarrow> BITCOUNT d key = 0"
  by (simp add: BITCOUNT_card)

lemma reserveSpecificScript_free:
  "window_free d key start n \<Longrightarrow>
     reserveSpecificScript d key start n = (start, set_bits d key start n)"
  by (simp add: reserveSpecificScript_def seat_taken_window)

lemma reserveSpecificScript_taken:
  "\<not> window_free d key start n \<Longrightarrow> reserveSpecificScript d key start n = (- 1, d)"
  by (simp add: reserveSpecificScript_def seat_taken_window)

lemma specific_on_fresh:
  "fst (reserveSpecificSeats fresh_redis 1 1 10 3) = Inr 10
   \<and> (\<forall>key off. GETBIT (db (snd (reserveSpecificSeats fresh_redis 1 1 10 3))) key off
                   = (key = seatKey 1 1 \<and> 10 \<le> int off \<and> int off < 13))"
proof -
  obtain res s' where call: "reserveSpecificSeats fresh_redis 1 1 10 3 = (res, s')"
    by (cases "reserveSpecificSeats fresh_redis 1 1 10 3")
  have "res = Inr 10"
    using call
    by (auto simp: reserveSpecificSeats_valid [OF valid_1_1] seatsPerRow_def SEATS_PER_ROW_def
                   reserveSpecificScript_free window_free_ensure_length)
  with reserveSpecific_outcomes [OF call] show ?thesis by (auto simp: call)
qed

lemma sum_single_row:
  "(\<Sum>zone = 1..ZONES. \<Sum>row = 1..ROWS_PER_ZONE. if zone = 1 \<and> row = 1 then c else 0) = (c::int)"
proof -
  have "(\<Sum>row = 1..ROWS_PER_ZONE. if zone = 1 \<and> row = 1 then c else 0) = (if zone = 1 then c else 0)"
    for zone :: int
    by (simp add: ROWS_PER_ZONE_def)
  then show ?thesis by (simp add: ZONES_def)
qed

section \<open>The key of a row is collision-free\<close>

text \<open>
  C8. The key of a row is computed from the coordinates alone (\<open>seatKey\<close> takes the zone and
  the row and nothing else, \<open>EVENT_ID\<close> being a constant), and two distinct valid
  coordinate pairs never get the same key.
\<close>

theorem seatKey_collision_free:
  assumes "\<not> invalid_coordinates zone row" and "\<not> invalid_coordinates zone' row'"
    and "(zone, row) \<noteq> (zone', row')"
  shows "seatKey zone row \<noteq> seatKey zone' row'"
  using assms(3) seatKey_inj [of zone row zone' row'] by auto

theorem seatKey_collision_free_witness:
  "\<not> invalid_coordinates 1 12 \<and> \<not> invalid_coordinates 11 2
   \<and> (1 :: int, 12 :: int) \<noteq> (11, 2) \<and> seatKey 1 12 \<noteq> seatKey 11 2"
proof -
  have a: "\<not> invalid_coordinates 1 12"
    by (simp add: invalid_coordinates_def ZONES_def ROWS_PER_ZONE_def)
  have b: "\<not> invalid_coordinates 11 2"
    by (simp add: invalid_coordinates_def ZONES_def ROWS_PER_ZONE_def)
  have c: "(1 :: int, 12 :: int) \<noteq> (11, 2)" by simp
  show ?thesis using a b c seatKey_collision_free [OF a b c] by simp
qed

section \<open>First-fit reservation of a contiguous block\<close>

text \<open>
  C1, for the counts the store accepts as a field width. For valid coordinates and
  \<open>1 \<le> count \<le> 63\<close>: if some offset \<open>i\<close> in \<open>[0, S - count]\<close> starts a window of \<open>count\<close>
  free seats, \<open>reserveContiguousSeats\<close> returns the smallest such offset and sets exactly
  the bits of that window to 1 (every other bit of every row keeps its value); if there
  is none, it returns \<open>-1\<close> and no bit changes.
\<close>

theorem reserveContiguous_first_fit:
  assumes "\<not> invalid_coordinates zone row" and "1 \<le> count" and "count \<le> 63"
  shows "case reserveContiguousSeats s zone row count of
           (result, s') \<Rightarrow>
             if \<exists>i\<in>{0..SEATS_PER_ROW - count}. window_free (db s) (seatKey zone row) i count
             then \<exists>i\<in>{0..SEATS_PER_ROW - count}.
                    result = Inr i
                  \<and> window_free (db s) (seatKey zone row) i count
                  \<and> (\<forall>i'\<in>{0..<i}. \<not> window_free (db s) (seatKey zone row) i' count)
                  \<and> (\<forall>key off. GETBIT (db s') key off
                        = (GETBIT (db s) key off
                           \<or> (key = seatKey zone row \<and> i \<le> int off \<and> int off < i + count)))
             else result = Inr (- 1)
                  \<and> (\<forall>key off. GETBIT (db s') key off = GETBIT (db s) key off)"
proof -
  let ?key = "seatKey zone row"
  let ?s1 = "ensure_length ?key s"
  have eq: "reserveContiguousSeats s zone row count =
     (fst (reserveScript (db ?s1) ?key count seatsPerRow),
      issue (Eval ?key) (?s1\<lparr>db := snd (reserveScript (db ?s1) ?key count seatsPerRow)\<rparr>))"
    using assms(1) by (rule reserveContiguousSeats_valid)
  have wf: "window_free (db ?s1) ?key i count = window_free (db s) ?key i count" for i
    by (rule window_free_ensure_length)
  from reserveScript_cases [OF assms(2,3), of seatsPerRow "db ?s1" ?key]
  show ?thesis
  proof
    assume "\<exists>i. 0 \<le> i \<and> i \<le> seatsPerRow - count \<and> window_free (db ?s1) ?key i count
              \<and> (\<forall>i'. 0 \<le> i' \<and> i' < i \<longrightarrow> \<not> window_free (db ?s1) ?key i' count)
              \<and> reserveScript (db ?s1) ?key count seatsPerRow = (Inr i, set_bits (db ?s1) ?key i count)"
    then obtain i where i: "0 \<le> i" "i \<le> seatsPerRow - count" "window_free (db s) ?key i count"
        "\<forall>i'. 0 \<le> i' \<and> i' < i \<longrightarrow> \<not> window_free (db s) ?key i' count"
        "reserveScript (db ?s1) ?key count seatsPerRow = (Inr i, set_bits (db ?s1) ?key i count)"
      unfolding wf by blast
    have bits: "GETBIT (set_bits (db ?s1) ?key i count) key off
                 = (GETBIT (db s) key off \<or> (key = ?key \<and> i \<le> int off \<and> int off < i + count))"
      for key off
      using i(1) by (simp add: GETBIT_set_bits GETBIT_ensure_length)
    have "i \<in> {0..SEATS_PER_ROW - count}" using i(1,2) by (simp add: seatsPerRow_def)
    then show ?thesis
      using i(3,4) bits by (auto simp: eq i(5))
  next
    assume "(\<forall>i. 0 \<le> i \<and> i \<le> seatsPerRow - count \<longrightarrow> \<not> window_free (db ?s1) ?key i count)
              \<and> reserveScript (db ?s1) ?key count seatsPerRow = (Inr (- 1), db ?s1)"
    then have none: "\<forall>i. 0 \<le> i \<and> i \<le> seatsPerRow - count \<longrightarrow> \<not> window_free (db s) ?key i count"
      and r: "reserveScript (db ?s1) ?key count seatsPerRow = (Inr (- 1), db ?s1)"
      unfolding wf by blast+
    from none have "\<not> (\<exists>i\<in>{0..SEATS_PER_ROW - count}. window_free (db s) ?key i count)"
      by (simp add: seatsPerRow_def)
    then show ?thesis by (simp add: eq r GETBIT_ensure_length)
  qed
qed

theorem reserveContiguous_first_fit_witness:
  "\<not> invalid_coordinates 1 1 \<and> (1::int) \<le> 3 \<and> (3::int) \<le> 63
   \<and> fst (reserveContiguousSeats fresh_redis 1 1 3) = Inr 0"
proof -
  have a: "\<not> invalid_coordinates 1 1" by (rule valid_1_1)
  have b: "(1::int) \<le> 3" and c: "(3::int) \<le> 63" by simp_all
  have "fst (reserveContiguousSeats fresh_redis 1 1 3) = Inr 0"
    using reserveContiguous_first_fit [OF a b c, of fresh_redis]
    by (auto simp: SEATS_PER_ROW_def split: prod.splits if_splits)
  with a show ?thesis by simp
qed

text \<open>
  As stated, for every count up to \<open>S = 65\<close>, the claim fails: with \<open>count = 64\<close> the script
  asks for the field \<^verbatim>\<open>u64\<close>, the store answers with an error, and the call on an
  empty row is rejected instead of returning offset 0.
\<close>

theorem reserveContiguous_count_64_counterexample:
  "\<not> invalid_coordinates 1 1 \<and> (1::int) \<le> 64 \<and> 64 \<le> SEATS_PER_ROW
   \<and> window_free (db fresh_redis) (seatKey 1 1) 0 64
   \<and> fst (reserveContiguousSeats fresh_redis 1 1 64) = Inl Redis_error"
proof -
  have "reserveScript d key 64 seatsPerRow = (Inl Redis_error, d)" for d key
    by (rule reserveScript_bad_width) (simp_all add: seatsPerRow_def SEATS_PER_ROW_def)
  then have "fst (reserveContiguousSeats fresh_redis 1 1 64) = Inl Redis_error"
    by (simp add: reserveContiguousSeats_valid [OF valid_1_1])
  then show ?thesis by (simp add: valid_1_1 SEATS_PER_ROW_def)
qed

text \<open>
  The same happens in every state and for every count that reaches the first read of a
  window with a width outside \<open>[1, 63]\<close>: the call fails with the store's error and no
  bit changes.
\<close>

lemma reserveContiguous_unsupported_width:
  assumes "\<not> invalid_coordinates zone row" and "count < 1 \<or> 63 < count"
    and "count \<le> SEATS_PER_ROW"
  shows "fst (reserveContiguousSeats s zone row count) = Inl Redis_error"
    and "GETBIT (db (snd (reserveContiguousSeats s zone row count))) key off = GETBIT (db s) key off"
proof -
  have "reserveScript d (seatKey zone row) count seatsPerRow = (Inl Redis_error, d)" for d
    using assms(2,3) by (intro reserveScript_bad_width) (simp_all add: seatsPerRow_def)
  then show "fst (reserveContiguousSeats s zone row count) = Inl Redis_error"
    and "GETBIT (db (snd (reserveContiguousSeats s zone row count))) key off = GETBIT (db s) key off"
    by (simp_all add: reserveContiguousSeats_valid [OF assms(1)] GETBIT_ensure_length)
qed

section \<open>A count above the row size\<close>

text \<open>
  C9. \<open>reserveContiguousSeats\<close> does not check the count. For valid coordinates and a count
  above \<open>S\<close> the call raises no error: the bound \<open>S - count\<close> of the scan is negative, the
  script examines no window (in any database it returns \<open>-1\<close> and the database as it
  was), the call returns \<open>-1\<close>, and every bit of every row keeps its value.
\<close>

theorem reserveContiguous_count_above_row:
  assumes "\<not> invalid_coordinates zone row" and "SEATS_PER_ROW < count"
  shows "seatsPerRow - count < 0
       \<and> (\<forall>d. reserveScript d (seatKey zone row) count seatsPerRow = (Inr (- 1), d))
       \<and> fst (reserveContiguousSeats s zone row count) = Inr (- 1)
       \<and> (\<forall>key off. GETBIT (db (snd (reserveContiguousSeats s zone row count))) key off
                       = GETBIT (db s) key off)"
proof -
  from assms(2) have lt: "seatsPerRow < count" by (simp add: seatsPerRow_def)
  then have r: "reserveScript d (seatKey zone row) count seatsPerRow = (Inr (- 1), d)" for d
    by (rule reserveScript_too_many)
  show ?thesis
    using lt by (simp add: r reserveContiguousSeats_valid [OF assms(1)] GETBIT_ensure_length)
qed

theorem reserveContiguous_count_above_row_witness:
  "\<not> invalid_coordinates 1 1 \<and> SEATS_PER_ROW < 66
   \<and> fst (reserveContiguousSeats fresh_redis 1 1 66) = Inr (- 1)"
proof -
  have b: "SEATS_PER_ROW < 66" by (simp add: SEATS_PER_ROW_def)
  show ?thesis
    using valid_1_1 b reserveContiguous_count_above_row [OF valid_1_1 b, of fresh_redis] by simp
qed

section \<open>Reservation of a given range\<close>

text \<open>
  C2. For valid coordinates and a range with \<open>start \<ge> 0\<close> and \<open>start + count \<le> S\<close>: if some
  bit of \<open>[start, start + count)\<close> is 1, \<open>reserveSpecificSeats\<close> returns \<open>-1\<close> and every bit
  of every row keeps its value (and the database itself is unchanged when the row already
  has its \<open>S\<close> bits); otherwise it returns \<open>start\<close> and sets exactly the bits of the range.
\<close>

theorem reserveSpecific_all_or_nothing:
  assumes "\<not> invalid_coordinates zone row" and "0 \<le> start" and "start + count \<le> SEATS_PER_ROW"
  shows "case reserveSpecificSeats s zone row start count of
           (result, s') \<Rightarrow>
             if \<exists>off. start \<le> int off \<and> int off < start + count \<and> GETBIT (db s) (seatKey zone row) off
             then result = Inr (- 1)
                  \<and> (\<forall>key off. GETBIT (db s') key off = GETBIT (db s) key off)
                  \<and> (seatsPerRow \<le> STRLEN (db s) (seatKey zone row) * 8 \<longrightarrow> db s' = db s)
             else result = Inr start
                  \<and> (\<forall>key off. GETBIT (db s') key off
                        = (GETBIT (db s) key off
                           \<or> (key = seatKey zone row \<and> start \<le> int off \<and> int off < start + count)))"
proof -
  let ?key = "seatKey zone row"
  let ?s1 = "ensure_length ?key s"
  from assms(3) have range: "start + count \<le> seatsPerRow" by (simp add: seatsPerRow_def)
  note eq = reserveSpecificSeats_valid [OF assms(1,2) range, of s]
  have taken: "seat_taken (db ?s1) ?key start [0..count - 1]
               \<longleftrightarrow> (\<exists>off. start \<le> int off \<and> int off < start + count \<and> GETBIT (db s) ?key off)"
    using assms(2) by (simp add: seat_taken_window window_free_ensure_length window_free_iff)
  show ?thesis
  proof (cases "seat_taken (db ?s1) ?key start [0..count - 1]")
    case True
    then have r: "reserveSpecificScript (db ?s1) ?key start count = (- 1, db ?s1)"
      by (simp add: reserveSpecificScript_def)
    show ?thesis
      using True taken by (simp add: eq r GETBIT_ensure_length ensure_length_sized)
  next
    case False
    then have r: "reserveSpecificScript (db ?s1) ?key start count
                  = (start, set_bits (db ?s1) ?key start count)"
      by (simp add: reserveSpecificScript_def)
    show ?thesis
      using False taken assms(2) by (simp add: eq r GETBIT_ensure_length GETBIT_set_bits)
  qed
qed

theorem reserveSpecific_all_or_nothing_witness:
  "\<not> invalid_coordinates 1 1 \<and> (0::int) \<le> 10 \<and> 10 + 3 \<le> SEATS_PER_ROW
   \<and> (0::int) \<le> 12 \<and> 12 + 2 \<le> SEATS_PER_ROW
   \<and> fst (reserveSpecificSeats fresh_redis 1 1 10 3) = Inr 10
   \<and> fst (reserveSpecificSeats (snd (reserveSpecificSeats fresh_redis 1 1 10 3)) 1 1 12 2)
       = Inr (- 1)"
proof -
  have a: "\<not> invalid_coordinates 1 1" by (rule valid_1_1)
  have b: "(0::int) \<le> 10" and c: "10 + 3 \<le> SEATS_PER_ROW" by (simp_all add: SEATS_PER_ROW_def)
  have b': "(0::int) \<le> 12" and c': "12 + 2 \<le> SEATS_PER_ROW" by (simp_all add: SEATS_PER_ROW_def)
  obtain r s1 where call: "reserveSpecificSeats fresh_redis 1 1 10 3 = (r, s1)"
    by (cases "reserveSpecificSeats fresh_redis 1 1 10 3")
  from reserveSpecific_all_or_nothing [OF a b c, of fresh_redis]
  have r: "r = Inr 10"
    and bits: "\<And>key off. GETBIT (db s1) key off
                 = (key = seatKey 1 1 \<and> 10 \<le> int off \<and> int off < 10 + 3)"
    by (simp_all add: call)
  have "GETBIT (db s1) (seatKey 1 1) 12" by (simp add: bits)
  then have "\<exists>off. 12 \<le> int off \<and> int off < 12 + 2 \<and> GETBIT (db s1) (seatKey 1 1) off"
    by (intro exI [of _ 12]) simp
  with reserveSpecific_all_or_nothing [OF a b' c', of s1]
  have "fst (reserveSpecificSeats s1 1 1 12 2) = Inr (- 1)"
    by (simp split: prod.splits)
  with a b c b' c' r show ?thesis by (simp add: call)
qed

section \<open>Validation comes before any access to the store\<close>

text \<open>
  C7. When the zone is outside \<open>[1, Z]\<close> or the row outside \<open>[1, R]\<close>,
  \<open>reserveContiguousSeats\<close>, \<open>reserveSpecificSeats\<close> and \<open>getSeatOccupancy\<close> fail with
  the error for invalid coordinates, and the state of the store, the commands sent to it
  included, is the one before the call: nothing was sent, read or written. For valid
  coordinates, \<open>reserveSpecificSeats\<close> with \<open>start < 0\<close> or \<open>start + count > S\<close> fails
  with the error for an invalid range, again with the store untouched. (With coordinates
  and range both invalid, the check of the coordinates comes first.)
\<close>

theorem validation_before_store_access:
  "(invalid_coordinates zone row \<longrightarrow>
      reserveContiguousSeats s zone row count = (Inl Invalid_zone_or_row, s)
    \<and> reserveSpecificSeats s zone row start count = (Inl Invalid_zone_or_row, s)
    \<and> getSeatOccupancy s zone row = (Inl Invalid_zone_or_row, s))
   \<and> (\<not> invalid_coordinates zone row \<and> (start < 0 \<or> start + count > SEATS_PER_ROW) \<longrightarrow>
        reserveSpecificSeats s zone row start count = (Inl Invalid_seat_range, s))
   \<and> (start < 0 \<or> start + count > SEATS_PER_ROW \<longrightarrow>
        (\<exists>e. reserveSpecificSeats s zone row start count = (Inl e, s)))"
  by (auto simp: reserveContiguousSeats_def reserveSpecificSeats_def getSeatOccupancy_def
                 seatsPerRow_def)

theorem validation_before_store_access_witness:
  "invalid_coordinates 51 1 \<and> \<not> invalid_coordinates 1 1 \<and> 60 + 6 > SEATS_PER_ROW
   \<and> reserveContiguousSeats fresh_redis 51 1 6 = (Inl Invalid_zone_or_row, fresh_redis)
   \<and> getSeatOccupancy fresh_redis 51 1 = (Inl Invalid_zone_or_row, fresh_redis)
   \<and> reserveSpecificSeats fresh_redis 51 1 60 6 = (Inl Invalid_zone_or_row, fresh_redis)
   \<and> reserveSpecificSeats fresh_redis 1 1 60 6 = (Inl Invalid_seat_range, fresh_redis)"
proof -
  have a: "invalid_coordinates 51 1"
    by (simp add: invalid_coordinates_def ZONES_def)
  have b: "60 + 6 > SEATS_PER_ROW" by (simp add: SEATS_PER_ROW_def)
  show ?thesis
    using a b valid_1_1
      validation_before_store_access
        [where zone = 51 and row = 1 and s = fresh_redis and count = 6 and start = 60]
      validation_before_store_access
        [where zone = 1 and row = 1 and s = fresh_redis and count = 6 and start = 60]
    by simp
qed

text \<open>A call that passes validation does reach the store: it sends at least one command.\<close>

lemma valid_calls_reach_store:
  assumes "\<not> invalid_coordinates zone row"
  shows "issued (snd (reserveContiguousSeats s zone row count)) \<noteq> issued s"
    and "issued (snd (getSeatOccupancy s zone row)) \<noteq> issued s"
    and "0 \<le> start \<Longrightarrow> start + count \<le> seatsPerRow \<Longrightarrow>
           issued (snd (reserveSpecificSeats s zone row start count)) \<noteq> issued s"
  using assms
  by (auto simp: reserveContiguousSeats_valid reserveSpecificSeats_valid getSeatOccupancy_valid
                 ensure_length_def Let_def)

section \<open>The aggregate occupancy\<close>

text \<open>
  C5. In any state, every valid row has a row occupancy, and \<open>checkAllSeatsUnavailable\<close>
  reports as \<open>occupiedSeats\<close> the sum of the \<open>occupied\<close> fields of the row occupancies over all
  \<open>Z \<times> R\<close> rows, \<open>totalSeats = Z \<times> R \<times> S\<close>, \<open>availableSeats = totalSeats - occupiedSeats\<close>,
  \<open>zonesChecked = Z\<close> and \<open>rowsChecked = Z \<times> R\<close>.
\<close>

theorem aggregate_is_sum_of_rows:
  "\<exists>occ. (\<forall>zone\<in>{1..ZONES}. \<forall>row\<in>{1..ROWS_PER_ZONE}.
             fst (getSeatOccupancy s zone row) = Inr (occ zone row))
       \<and> occupiedSeats (fst (checkAllSeatsUnavailable s))
           = (\<Sum>zone = 1..ZONES. \<Sum>row = 1..ROWS_PER_ZONE. occupied (occ zone row))
       \<and> totalSeats (fst (checkAllSeatsUnavailable s)) = ZONES * ROWS_PER_ZONE * SEATS_PER_ROW
       \<and> availableSeats (fst (checkAllSeatsUnavailable s))
           = totalSeats (fst (checkAllSeatsUnavailable s))
             - occupiedSeats (fst (checkAllSeatsUnavailable s))
       \<and> zonesChecked (fst (checkAllSeatsUnavailable s)) = ZONES
       \<and> rowsChecked (fst (checkAllSeatsUnavailable s)) = ZONES * ROWS_PER_ZONE"
proof -
  let ?occ = "\<lambda>zone row. \<lparr>occupied = BITCOUNT (db s) (seatKey zone row), total = seatsPerRow,
                            available = seatsPerRow - BITCOUNT (db s) (seatKey zone row)\<rparr>"
  have rows: "\<forall>zone\<in>{1..ZONES}. \<forall>row\<in>{1..ROWS_PER_ZONE}.
                fst (getSeatOccupancy s zone row) = Inr (?occ zone row)"
    by (simp add: getSeatOccupancy_valid valid_interval)
  have total: "occupiedSeats (fst (checkAllSeatsUnavailable s))
           = (\<Sum>zone = 1..ZONES. \<Sum>row = 1..ROWS_PER_ZONE. occupied (?occ zone row))"
    by (simp add: occupiedSeats_checkAll)
  have rest: "totalSeats (fst (checkAllSeatsUnavailable s)) = ZONES * ROWS_PER_ZONE * SEATS_PER_ROW
       \<and> availableSeats (fst (checkAllSeatsUnavailable s))
           = totalSeats (fst (checkAllSeatsUnavailable s))
             - occupiedSeats (fst (checkAllSeatsUnavailable s))
       \<and> zonesChecked (fst (checkAllSeatsUnavailable s)) = ZONES
       \<and> rowsChecked (fst (checkAllSeatsUnavailable s)) = ZONES * ROWS_PER_ZONE"
    by (simp add: checkAllSeatsUnavailable_def Let_def)
  show ?thesis
    by (rule exI [of _ ?occ]) (use rows total rest in blast)
qed

theorem aggregate_is_sum_of_rows_witness:
  "(1::int) \<in> {1..ZONES} \<and> (1::int) \<in> {1..ROWS_PER_ZONE}
   \<and> occupied (projr (fst (getSeatOccupancy (snd (reserveSpecificSeats fresh_redis 1 1 10 3)) 1 1))) = 3
   \<and> occupiedSeats (fst (checkAllSeatsUnavailable (snd (reserveSpecificSeats fresh_redis 1 1 10 3)))) = 3
   \<and> totalSeats (fst (checkAllSeatsUnavailable (snd (reserveSpecificSeats fresh_redis 1 1 10 3)))) = 65000
   \<and> availableSeats (fst (checkAllSeatsUnavailable (snd (reserveSpecificSeats fresh_redis 1 1 10 3)))) = 64997"
proof -
  let ?s = "snd (reserveSpecificSeats fresh_redis 1 1 10 3)"
  have "{off. 10 \<le> int off \<and> int off < 13} = {10..<13}" by auto
  then have "card {off. 10 \<le> int off \<and> int off < 13} = 3" by simp
  then have count: "BITCOUNT (db ?s) (seatKey zone row) = (if zone = 1 \<and> row = 1 then 3 else 0)"
    for zone row
    using seatKey_inj [of zone row 1 1] by (auto simp: BITCOUNT_card specific_on_fresh)
  from aggregate_is_sum_of_rows [of ?s] obtain occ where
    rows: "\<forall>zone\<in>{1..ZONES}. \<forall>row\<in>{1..ROWS_PER_ZONE}.
             fst (getSeatOccupancy ?s zone row) = Inr (occ zone row)"
    and total: "occupiedSeats (fst (checkAllSeatsUnavailable ?s))
                = (\<Sum>zone = 1..ZONES. \<Sum>row = 1..ROWS_PER_ZONE. occupied (occ zone row))"
    and rest: "totalSeats (fst (checkAllSeatsUnavailable ?s)) = ZONES * ROWS_PER_ZONE * SEATS_PER_ROW"
      "availableSeats (fst (checkAllSeatsUnavailable ?s))
           = totalSeats (fst (checkAllSeatsUnavailable ?s))
             - occupiedSeats (fst (checkAllSeatsUnavailable ?s))"
    by blast
  have occ: "occupied (occ zone row) = (if zone = 1 \<and> row = 1 then 3 else 0)"
    if "zone \<in> {1..ZONES}" "row \<in> {1..ROWS_PER_ZONE}" for zone row
  proof -
    from rows that have "fst (getSeatOccupancy ?s zone row) = Inr (occ zone row)" by blast
    moreover have "\<not> invalid_coordinates zone row" using that by (rule valid_interval)
    ultimately have "occupied (occ zone row) = BITCOUNT (db ?s) (seatKey zone row)"
      by (simp add: getSeatOccupancy_valid) (metis occupancy.select_convs(1))
    then show ?thesis by (simp add: count)
  qed
  have "(\<Sum>zone = 1..ZONES. \<Sum>row = 1..ROWS_PER_ZONE. occupied (occ zone row))
        = (\<Sum>zone = 1..ZONES. \<Sum>row = 1..ROWS_PER_ZONE. if zone = 1 \<and> row = 1 then 3 else 0)"
    by (intro sum.cong refl) (simp add: occ)
  with total have three: "occupiedSeats (fst (checkAllSeatsUnavailable ?s)) = 3"
    by (simp only: sum_single_row)
  have one: "occupied (projr (fst (getSeatOccupancy ?s 1 1))) = 3"
    by (simp add: getSeatOccupancy_valid [OF valid_1_1] count)
  show ?thesis
    using three one rest by (simp add: ZONES_def ROWS_PER_ZONE_def SEATS_PER_ROW_def)
qed

section \<open>The worked example\<close>

text \<open>
  C6. With \<open>S = 65\<close>, on a row of a valid pair of coordinates whose bits are all 0, four
  calls of \<open>reserveContiguousSeats\<close> with count 3, one after the other, return 0, 3, 6
  and 9, and a fifth call with count 60 on the same row returns \<open>-1\<close>.
\<close>

theorem four_blocks_of_three_then_sixty:
  assumes "\<not> invalid_coordinates zone row"
    and "\<forall>off. \<not> GETBIT (db s) (seatKey zone row) off"
  shows "SEATS_PER_ROW = 65
       \<and> map snd (fst (run_calls s
            [Contiguous zone row 3, Contiguous zone row 3, Contiguous zone row 3,
             Contiguous zone row 3, Contiguous zone row 60]))
          = [Inr 0, Inr 3, Inr 6, Inr 9, Inr (- 1)]"
proof -
  let ?key = "seatKey zone row"
  let ?four = "replicate 4 (Contiguous zone row 3)"
  have pre: "\<forall>off. GETBIT (db s) ?key off \<longleftrightarrow> int off < 0" using assms(2) by simp
  have room: "0 + int 4 * 3 \<le> SEATS_PER_ROW" by (simp add: SEATS_PER_ROW_def)
  from run_repeat_on_prefix [OF assms(1) _ _ _ room pre]
  have four: "map snd (fst (run_calls s ?four)) = map (\<lambda>j. Inr (int j * 3)) [0..<4]"
    and after: "\<forall>off. GETBIT (db (snd (run_calls s ?four))) ?key off \<longleftrightarrow> int off < 12"
    by simp_all
  have idx: "map (\<lambda>j. Inr (int j * 3) :: error + int) [0..<4] = [Inr 0, Inr 3, Inr 6, Inr 9]"
    by (simp add: upt_rec)
  obtain res s' where call: "reserveContiguousSeats (snd (run_calls s ?four)) zone row 60 = (res, s')"
    by (cases "reserveContiguousSeats (snd (run_calls s ?four)) zone row 60")
  from reserve_on_prefix [OF assms(1) _ _ _ after call]
  have fifth: "res = Inr (- 1)" by (simp add: SEATS_PER_ROW_def)
  have list: "[Contiguous zone row 3, Contiguous zone row 3, Contiguous zone row 3,
               Contiguous zone row 3, Contiguous zone row 60] = ?four @ [Contiguous zone row 60]"
    by (simp add: numeral_eq_Suc)
  show ?thesis
    unfolding list run_calls_append
    using four fifth by (simp add: idx call SEATS_PER_ROW_def)
qed

theorem four_blocks_of_three_then_sixty_witness:
  "\<not> invalid_coordinates 1 1
   \<and> map snd (fst (run_calls (initializeAllSeatTables fresh_redis)
        [Contiguous 1 1 3, Contiguous 1 1 3, Contiguous 1 1 3, Contiguous 1 1 3,
         Contiguous 1 1 60]))
      = [Inr 0, Inr 3, Inr 6, Inr 9, Inr (- 1)]"
proof -
  have zero: "\<forall>off. \<not> GETBIT (db (initializeAllSeatTables fresh_redis)) (seatKey 1 1) off"
    by simp
  show ?thesis
    using valid_1_1 four_blocks_of_three_then_sixty [OF valid_1_1 zero] by simp
qed

section \<open>Running the initialisation again\<close>

text \<open>
  C3 does not hold for the last seat of a row. \<open>initializeAllSeatTables\<close> writes a 0 at
  offset \<open>S - 1\<close> of every row without looking at the row, so it frees seat 64 when that
  seat is taken. Starting from an empty store: after the initialisation, thirteen calls
  of \<open>reserveContiguousSeats\<close> with count 5 on row (1, 1) return 0, 5, ..., 60 and fill
  the row; the last of them sets bit 64. A second initialisation clears bit 64, the
  occupancy of the row drops from 65 to 64, and the next call with count 1 returns 64: the
  seat is handed out a second time.
\<close>

theorem initializeAll_frees_last_seat:
  "let s1 = initializeAllSeatTables fresh_redis;
       (outcomes, s2) = run_calls s1 (replicate 13 (Contiguous 1 1 5));
       s3 = initializeAllSeatTables s2
   in map snd outcomes = map (\<lambda>j. Inr (int j * 5)) [0..<13]
      \<and> GETBIT (db s2) (seatKey 1 1) 64
      \<and> BITCOUNT (db s2) (seatKey 1 1) = 65
      \<and> \<not> GETBIT (db s3) (seatKey 1 1) 64
      \<and> BITCOUNT (db s3) (seatKey 1 1) = 64
      \<and> fst (reserveContiguousSeats s3 1 1 1) = Inr 64"
proof -
  let ?key = "seatKey 1 1"
  let ?s1 = "initializeAllSeatTables fresh_redis"
  let ?calls = "replicate 13 (Contiguous 1 1 5)"
  obtain outcomes s2 where run: "run_calls ?s1 ?calls = (outcomes, s2)"
    by (cases "run_calls ?s1 ?calls")
  have pre: "\<forall>off. GETBIT (db ?s1) ?key off \<longleftrightarrow> int off < 0" by simp
  have room: "0 + int 13 * 5 \<le> SEATS_PER_ROW" by (simp add: SEATS_PER_ROW_def)
  from run_repeat_on_prefix [OF valid_1_1 _ _ _ room pre] run
  have outs: "map snd outcomes = map (\<lambda>j. Inr (int j * 5)) [0..<13]"
    and full: "\<forall>off. GETBIT (db s2) ?key off \<longleftrightarrow> int off < 65"
    by simp_all
  have "{off. int off < 65} = {..<65::nat}" by auto
  then have c2: "BITCOUNT (db s2) ?key = 65" by (simp add: BITCOUNT_card full)
  let ?s3 = "initializeAllSeatTables s2"
  have "\<exists>zone row. \<not> invalid_coordinates zone row \<and> ?key = seatKey zone row"
    using valid_1_1 by blast
  then have rest: "\<forall>off. GETBIT (db ?s3) ?key off \<longleftrightarrow> int off < 64"
    by (auto simp: GETBIT_initializeAll full SEATS_PER_ROW_def)
  have "{off. int off < 64} = {..<64::nat}" by auto
  then have c3: "BITCOUNT (db ?s3) ?key = 64" by (simp add: BITCOUNT_card rest)
  obtain res s4 where call: "reserveContiguousSeats ?s3 1 1 1 = (res, s4)"
    by (cases "reserveContiguousSeats ?s3 1 1 1")
  from reserve_on_prefix [OF valid_1_1 _ _ _ rest call]
  have again: "res = Inr 64" by (simp add: SEATS_PER_ROW_def)
  show ?thesis
    using outs full c2 rest c3 again by (simp add: run call)
qed

text \<open>Every other seat keeps its state, and no seat is ever set by the initialisation.\<close>

lemma initializeAll_keeps_other_seats:
  "int off \<noteq> SEATS_PER_ROW - 1 \<Longrightarrow>
     GETBIT (db (initializeAllSeatTables s)) key off = GETBIT (db s) key off"
  "GETBIT (db (initializeAllSeatTables s)) key off \<Longrightarrow> GETBIT (db s) key off"
  by (simp_all add: GETBIT_initializeAll)

section \<open>The occupancy of a row is the sum of the granted counts\<close>

text \<open>
  C4, for sequences of calls in which no call of \<open>reserveSpecificSeats\<close> has a negative
  count. For every row: a call that succeeds on the row raises the number of set bits of
  the row by exactly its count, and any other call (one that returns \<open>-1\<close>, one that
  fails with an error, one on another row) leaves it as it is; so after any such sequence
  of calls, started on a row without a set bit, the number of set bits of the row is the
  sum of the counts of the calls on the row that returned an index.
\<close>

theorem occupancy_is_sum_of_granted_counts:
  assumes "\<forall>c\<in>set calls. specific_count_nonneg c"
    and "BITCOUNT (db s) (seatKey zone row) = 0"
  shows "BITCOUNT (db (snd (run_calls s calls))) (seatKey zone row)
           = granted (zone, row) (fst (run_calls s calls))
       \<and> (\<forall>c\<in>set calls. \<forall>s0.
             BITCOUNT (db (snd (perform s0 c))) (seatKey zone row)
               = BITCOUNT (db s0) (seatKey zone row)
                 + (if call_row c = (zone, row) \<and> succeeded (fst (perform s0 c))
                    then call_count c else 0))"
proof
  show "BITCOUNT (db (snd (run_calls s calls))) (seatKey zone row)
          = granted (zone, row) (fst (run_calls s calls))"
    using run_calls_count [OF assms(1), of s zone row] assms(2) by simp
next
  show "\<forall>c\<in>set calls. \<forall>s0.
             BITCOUNT (db (snd (perform s0 c))) (seatKey zone row)
               = BITCOUNT (db s0) (seatKey zone row)
                 + (if call_row c = (zone, row) \<and> succeeded (fst (perform s0 c))
                    then call_count c else 0)"
  proof (intro ballI allI)
    fix c s0 assume "c \<in> set calls"
    with assms(1) have c: "specific_count_nonneg c" by blast
    have "perform s0 c = (fst (perform s0 c), snd (perform s0 c))" by simp
    from perform_count [OF this c]
    show "BITCOUNT (db (snd (perform s0 c))) (seatKey zone row)
               = BITCOUNT (db s0) (seatKey zone row)
                 + (if call_row c = (zone, row) \<and> succeeded (fst (perform s0 c))
                    then call_count c else 0)" .
  qed
qed

theorem occupancy_is_sum_of_granted_counts_witness:
  "list_all specific_count_nonneg
     [Contiguous 1 1 3, Specific 1 1 1 2, Specific 1 1 10 4, Contiguous 1 1 70, Contiguous 2 1 5]
   \<and> BITCOUNT (db (initializeAllSeatTables fresh_redis)) (seatKey 1 1) = 0
   \<and> BITCOUNT (db (snd (run_calls (initializeAllSeatTables fresh_redis)
          [Contiguous 1 1 3, Specific 1 1 1 2, Specific 1 1 10 4, Contiguous 1 1 70,
           Contiguous 2 1 5]))) (seatKey 1 1)
      = granted (1, 1) (fst (run_calls (initializeAllSeatTables fresh_redis)
          [Contiguous 1 1 3, Specific 1 1 1 2, Specific 1 1 10 4, Contiguous 1 1 70,
           Contiguous 2 1 5]))"
proof -
  let ?calls = "[Contiguous 1 1 3, Specific 1 1 1 2, Specific 1 1 10 4, Contiguous 1 1 70,
                 Contiguous 2 1 5]"
  have a: "\<forall>c\<in>set ?calls. specific_count_nonneg c" by simp
  have b: "BITCOUNT (db (initializeAllSeatTables fresh_redis)) (seatKey 1 1) = 0"
    by (simp add: BITCOUNT_empty_row)
  note sum = occupancy_is_sum_of_granted_counts [OF a b]
  have a': "list_all specific_count_nonneg ?calls" by simp
  show ?thesis by (intro conjI a' b sum [THEN conjunct1])
qed

text \<open>
  As stated, for every sequence of calls, the claim fails: \<open>reserveSpecificSeats\<close> checks
  \<open>start + count \<le> S\<close> but not the sign of the count. On a freshly initialised row the call
  with \<open>start = 5\<close> and \<open>count = -2\<close> passes the checks, runs neither loop, and returns the
  index 5; no bit is set, while the counts of the calls that returned an index sum to \<open>-2\<close>.
\<close>

theorem negative_count_counterexample:
  "BITCOUNT (db (initializeAllSeatTables fresh_redis)) (seatKey 1 1) = 0
   \<and> map snd (fst (run_calls (initializeAllSeatTables fresh_redis) [Specific 1 1 5 (- 2)]))
       = [Inr 5]
   \<and> BITCOUNT (db (snd (run_calls (initializeAllSeatTables fresh_redis) [Specific 1 1 5 (- 2)])))
        (seatKey 1 1) = 0
   \<and> granted (1, 1) (fst (run_calls (initializeAllSeatTables fresh_redis) [Specific 1 1 5 (- 2)]))
       = - 2
   \<and> BITCOUNT (db (snd (run_calls (initializeAllSeatTables fresh_redis) [Specific 1 1 5 (- 2)])))
        (seatKey 1 1)
       \<noteq> granted (1, 1)
           (fst (run_calls (initializeAllSeatTables fresh_redis) [Specific 1 1 5 (- 2)]))"
proof -
  let ?s1 = "initializeAllSeatTables fresh_redis"
  let ?s1' = "ensure_length (seatKey 1 1) ?s1"
  have script: "reserveSpecificScript (db ?s1') (seatKey 1 1) 5 (- 2) = (5, db ?s1')"
    by (simp add: reserveSpecificScript_def set_bits_empty)
  have call: "reserveSpecificSeats ?s1 1 1 5 (- 2)
              = (Inr 5, issue (Eval (seatKey 1 1)) (?s1'\<lparr>db := db ?s1'\<rparr>))"
    using reserveSpecificSeats_valid [OF valid_1_1, of 5 "- 2" ?s1]
    by (simp add: script seatsPerRow_def SEATS_PER_ROW_def)
  have zero: "BITCOUNT (db ?s1) (seatKey 1 1) = 0" by (simp add: BITCOUNT_empty_row)
  have after: "BITCOUNT (db ?s1') (seatKey 1 1) = 0"
    by (simp add: BITCOUNT_empty_row GETBIT_ensure_length)
  show ?thesis
    using zero after by (simp add: call granted_def)
qed

section \<open>No seat beyond the row\<close>

text \<open>
  C10. No operation sets a bit at an offset \<open>\<ge> S\<close>: \<open>reserveContiguousSeats\<close> and
  \<open>reserveSpecificSeats\<close> leave every bit at such an offset as it is, whatever their
  arguments, and \<open>initializeAllSeatTables\<close> changes nothing but the bit at offset \<open>S - 1\<close>
  of the rows, which it makes 0. Hence in every state that a sequence of operations of the
  service reaches from the empty store, the number of set bits of each row is between 0
  and \<open>S\<close>, and \<open>getSeatOccupancy\<close> returns \<open>occupied\<close> in \<open>[0, S]\<close> and
  \<open>available = S - occupied \<ge> 0\<close>.
\<close>

theorem no_seat_beyond_the_row:
  "(\<forall>key off. SEATS_PER_ROW \<le> int off \<longrightarrow>
       GETBIT (db (snd (reserveContiguousSeats s zone row count))) key off = GETBIT (db s) key off)
   \<and> (\<forall>key off. SEATS_PER_ROW \<le> int off \<longrightarrow>
         GETBIT (db (snd (reserveSpecificSeats s zone row start count))) key off
           = GETBIT (db s) key off)
   \<and> (\<forall>key off. GETBIT (db (initializeAllSeatTables s)) key off
         = (GETBIT (db s) key off
            \<and> \<not> (int off = SEATS_PER_ROW - 1
                 \<and> (\<exists>zone row. \<not> invalid_coordinates zone row \<and> key = seatKey zone row))))
   \<and> (\<not> invalid_coordinates zone row \<longrightarrow>
         0 \<le> BITCOUNT (db (run fresh_redis ops)) (seatKey zone row)
       \<and> BITCOUNT (db (run fresh_redis ops)) (seatKey zone row) \<le> SEATS_PER_ROW
       \<and> (\<exists>occ. fst (getSeatOccupancy (run fresh_redis ops) zone row) = Inr occ
                \<and> 0 \<le> occupied occ \<and> occupied occ \<le> SEATS_PER_ROW
                \<and> available occ = SEATS_PER_ROW - occupied occ \<and> 0 \<le> available occ))"
proof (intro conjI)
  show "\<forall>key off. SEATS_PER_ROW \<le> int off \<longrightarrow>
       GETBIT (db (snd (reserveContiguousSeats s zone row count))) key off = GETBIT (db s) key off"
    by (simp add: reserveContiguous_beyond_row)
next
  show "\<forall>key off. SEATS_PER_ROW \<le> int off \<longrightarrow>
         GETBIT (db (snd (reserveSpecificSeats s zone row start count))) key off
           = GETBIT (db s) key off"
    by (simp add: reserveSpecific_beyond_row)
next
  show "\<forall>key off. GETBIT (db (initializeAllSeatTables s)) key off
         = (GETBIT (db s) key off
            \<and> \<not> (int off = SEATS_PER_ROW - 1
                 \<and> (\<exists>zone row. \<not> invalid_coordinates zone row \<and> key = seatKey zone row)))"
    by (intro allI) (rule GETBIT_initializeAll)
next
  let ?s = "run fresh_redis ops"
  have inv: "no_seat_beyond_row (db ?s)" using fresh_beyond_row by (rule run_beyond_row)
  note bounds = BITCOUNT_bounds [OF inv, of "seatKey zone row"]
  show "\<not> invalid_coordinates zone row \<longrightarrow>
         0 \<le> BITCOUNT (db ?s) (seatKey zone row)
       \<and> BITCOUNT (db ?s) (seatKey zone row) \<le> SEATS_PER_ROW
       \<and> (\<exists>occ. fst (getSeatOccupancy ?s zone row) = Inr occ
                \<and> 0 \<le> occupied occ \<and> occupied occ \<le> SEATS_PER_ROW
                \<and> available occ = SEATS_PER_ROW - occupied occ \<and> 0 \<le> available occ)"
    using bounds by (simp add: getSeatOccupancy_valid seatsPerRow_def)
qed

theorem no_seat_beyond_the_row_witness:
  "SEATS_PER_ROW \<le> int 70 \<and> \<not> invalid_coordinates 1 1
   \<and> GETBIT (db (snd (reserveContiguousSeats fresh_redis 1 1 5))) (seatKey 1 1) 70
       = GETBIT (db fresh_redis) (seatKey 1 1) 70
   \<and> 0 \<le> BITCOUNT (db (run fresh_redis
         [InitializeAll, Reserve (Contiguous 1 1 5), Reserve (Specific 1 1 60 5), InitializeAll,
          RowOccupancy 1 1, ClearAll, Reserve (Contiguous 1 1 2), AggregateOccupancy]))
         (seatKey 1 1)
   \<and> BITCOUNT (db (run fresh_redis
         [InitializeAll, Reserve (Contiguous 1 1 5), Reserve (Specific 1 1 60 5), InitializeAll,
          RowOccupancy 1 1, ClearAll, Reserve (Contiguous 1 1 2), AggregateOccupancy]))
         (seatKey 1 1) \<le> SEATS_PER_ROW"
proof -
  let ?ops = "[InitializeAll, Reserve (Contiguous 1 1 5), Reserve (Specific 1 1 60 5),
               InitializeAll, RowOccupancy 1 1, ClearAll, Reserve (Contiguous 1 1 2),
               AggregateOccupancy]"
  have a: "SEATS_PER_ROW \<le> int 70" by (simp add: SEATS_PER_ROW_def)
  note all = no_seat_beyond_the_row
    [where s = fresh_redis and zone = 1 and row = 1 and count = 5 and ops = ?ops]
  from all have "\<forall>key off. SEATS_PER_ROW \<le> int off \<longrightarrow>
       GETBIT (db (snd (reserveContiguousSeats fresh_redis 1 1 5))) key off
         = GETBIT (db fresh_redis) key off"
    by (rule conjunct1)
  with a have first: "GETBIT (db (snd (reserveContiguousSeats fresh_redis 1 1 5))) (seatKey 1 1) 70
       = GETBIT (db fresh_redis) (seatKey 1 1) 70"
    by blast
  from all have "\<not> invalid_coordinates 1 1 \<longrightarrow>
         0 \<le> BITCOUNT (db (run fresh_redis ?ops)) (seatKey 1 1)
       \<and> BITCOUNT (db (run fresh_redis ?ops)) (seatKey 1 1) \<le> SEATS_PER_ROW
       \<and> (\<exists>occ. fst (getSeatOccupancy (run fresh_redis ?ops) 1 1) = Inr occ
                \<and> 0 \<le> occupied occ \<and> occupied occ \<le> SEATS_PER_ROW
                \<and> available occ = SEATS_PER_ROW - occupied occ \<and> 0 \<le> available occ)"
    by (rule conjunct2 [OF conjunct2 [OF conjunct2]])
  with valid_1_1 have last: "0 \<le> BITCOUNT (db (run fresh_redis ?ops)) (seatKey 1 1)"
    "BITCOUNT (db (run fresh_redis ?ops)) (seatKey 1 1) \<le> SEATS_PER_ROW"
    by blast+
  show ?thesis by (intro conjI a valid_1_1 first last)
qed

end
